theory Spec2Isabelle
  imports Main "HOL-Library.Word"
begin

section \<open>Go's 64-bit integers\<close>

text \<open>
  The program computes on \<^verbatim>\<open>int64\<close> (and on \<^verbatim>\<open>int\<close>, which is 64 bits wide on
  the platforms considered here). A value is modelled as a mathematical integer in the
  range of the type, and every operation that can leave the range wraps around in two's
  complement, as Go specifies.
\<close>

definition int64 :: "int \<Rightarrow> bool" where
  "int64 x \<longleftrightarrow> - (2 ^ 63) \<le> x \<and> x < 2 ^ 63"

definition wrap64 :: "int \<Rightarrow> int" where
  "wrap64 x = (x + 2 ^ 63) mod 2 ^ 64 - 2 ^ 63"

text \<open>
  Go's \<^verbatim>\<open>/\<close> and \<^verbatim>\<open>%\<close> truncate towards zero; the remainder has the sign of the
  dividend. Both are only used here with a divisor known to be non-zero, except in
  \<^verbatim>\<open>mod\<close>, which checks it explicitly below as the Go runtime does.
\<close>

definition go_div :: "int \<Rightarrow> int \<Rightarrow> int" where
  "go_div a b = wrap64 (sgn a * sgn b * (\<bar>a\<bar> div \<bar>b\<bar>))"

definition go_rem :: "int \<Rightarrow> int \<Rightarrow> int" where
  "go_rem a b = sgn a * (\<bar>a\<bar> mod \<bar>b\<bar>)"

section \<open>Errors and results\<close>

datatype error = DivideByZero | IndexOutOfRange | WrongBlockLength

text \<open>
  A run-time panic is \<open>Inl\<close>. A computation that may fail to return (unbounded
  recursion, an unbounded loop) has an \<open>option\<close> result on top: \<open>None\<close> is "does not
  return".
\<close>

definition bindE :: "error + 'a \<Rightarrow> ('a \<Rightarrow> error + 'b) \<Rightarrow> error + 'b" where
  "bindE m f = (case m of Inl e \<Rightarrow> Inl e | Inr v \<Rightarrow> f v)"

definition bindR :: "(error + 'a) option \<Rightarrow> ('a \<Rightarrow> (error + 'b) option) \<Rightarrow> (error + 'b) option" where
  "bindR m f = Option.bind m (\<lambda>r. case r of Inl e \<Rightarrow> Some (Inl e) | Inr v \<Rightarrow> f v)"

lemma bindR_mono [partial_function_mono]:
  assumes "mono_option B" and "\<And>y. mono_option (C y)"
  shows "mono_option (\<lambda>f. bindR (B f) (\<lambda>y. C y f))"
  unfolding bindR_def
proof (rule bind_mono [OF assms(1)])
  fix y :: "error + 'c"
  show "mono_option (\<lambda>f. case y of Inl e \<Rightarrow> Some (Inl e) | Inr v \<Rightarrow> C v f)"
    by (cases y) (simp_all add: assms(2) option.const_mono)
qed

lemma bindR_simps [simp]:
  "bindR None f = None"
  "bindR (Some (Inl e)) f = Some (Inl e)"
  "bindR (Some (Inr v)) f = f v"
  by (simp_all add: bindR_def)

lemma bindE_simps [simp]:
  "bindE (Inl e) f = Inl e"
  "bindE (Inr v) f = f v"
  by (simp_all add: bindE_def)

section \<open>Modular arithmetic\<close>

text \<open>\<^verbatim>\<open>mod\<close>: the Euclidean remainder. \<open>r + b\<close> cannot overflow: the two have opposite signs.\<close>

definition mod_go :: "int \<Rightarrow> int \<Rightarrow> error + int" where
  "mod_go a b =
     (if b = 0 then Inl DivideByZero
      else let r = go_rem a b in
        if (r < 0 \<and> b > 0) \<or> (r > 0 \<and> b < 0) then Inr (r + b) else Inr r)"

text \<open>
  \<^verbatim>\<open>modpow\<close>: recursion on \<open>b\<close>, halving it until it is 1. For \<open>b \<le> 0\<close> the recursion
  never reaches 1 and the function does not return.
\<close>

partial_function (option) modpow :: "int \<Rightarrow> int \<Rightarrow> int \<Rightarrow> (error + int) option" where
  "modpow a b n =
     (if b = 1 then Some (Inr a)
      else bindR (modpow a (go_div b 2) n) (\<lambda>r.
           Some (bindE (mod_go r n) (\<lambda>x.
             if go_rem b 2 = 0 then mod_go (wrap64 (x * x)) n
             else bindE (mod_go (wrap64 (x * x)) n) (\<lambda>y. mod_go (wrap64 (y * a)) n)))))"

declare modpow.simps [code]

text \<open>
  For a non-zero divisor \<^verbatim>\<open>mod\<close> is the remainder \<open>a mod b\<close> of HOL, which is smaller than the
  divisor in absolute value: this is why \<^verbatim>\<open>mdc\<close> below terminates.
\<close>

lemma go_rem_nonneg: "0 \<le> a \<Longrightarrow> 0 < b \<Longrightarrow> go_rem a b = a mod b"
  by (cases "a = 0") (simp_all add: go_rem_def)

lemma mod_go_pos: "0 < b \<Longrightarrow> mod_go a b = Inr (a mod b)"
proof (cases "0 \<le> a")
  case True
  assume b: "0 < b"
  with True show ?thesis using pos_mod_sign [of b a]
    by (simp add: mod_go_def go_rem_nonneg Let_def not_less)
next
  case False
  assume b: "0 < b"
  from False have r: "go_rem a b = - ((- a) mod b)" using b by (simp add: go_rem_def)
  show ?thesis
  proof (cases "a mod b = 0")
    case True
    then show ?thesis using b r by (simp add: mod_go_def Let_def zmod_zminus1_eq_if)
  next
    case False
    have "0 \<le> a mod b" "a mod b < b" using b by simp_all
    with False have "0 < a mod b" "a mod b < b" by linarith+
    then show ?thesis using b r False by (simp add: mod_go_def Let_def zmod_zminus1_eq_if)
  qed
qed

lemma mod_go_eq: "b \<noteq> 0 \<Longrightarrow> mod_go a b = Inr (a mod b)"
proof (cases "0 < b")
  case True
  then show ?thesis by (simp add: mod_go_pos)
next
  case False
  assume "b \<noteq> 0"
  with False have b: "b < 0" by simp
  have r: "go_rem a b = - go_rem (- a) (- b)" by (simp add: go_rem_def)
  have m: "mod_go (- a) (- b) = Inr ((- a) mod (- b))" using b by (simp add: mod_go_pos)
  have "mod_go a b = Inr (- ((- a) mod (- b)))"
    using m b unfolding mod_go_def Let_def r
    by (auto split: if_splits)
  then show ?thesis by (simp add: mod_minus_minus)
qed

lemma mod_go_abs_less: "b \<noteq> 0 \<Longrightarrow> mod_go a b = Inr r \<Longrightarrow> \<bar>r\<bar> < \<bar>b\<bar>"
  using abs_mod_less [of b a] by (auto simp: mod_go_eq)

text \<open>\<^verbatim>\<open>mdc\<close>: Euclid's algorithm on the Euclidean remainder.\<close>

function mdc :: "int \<Rightarrow> int \<Rightarrow> error + int" where
  "mdc a b = (if b = 0 then Inr a else (case mod_go a b of Inl e \<Rightarrow> Inl e | Inr r \<Rightarrow> mdc b r))"
  by pat_completeness auto
termination
  by (relation "measure (\<lambda>(a, b). nat \<bar>b\<bar>)") (auto dest: mod_go_abs_less)

declare mdc.simps [simp del]

text \<open>
  \<^verbatim>\<open>mdcExtended\<close>: the loop \<^verbatim>\<open>for r != 0\<close> over the six variables, with Go's truncating
  quotient; the pair returned is \<open>(oldS, oldT)\<close>.
\<close>

partial_function (option) mdcExtended_loop ::
  "int \<Rightarrow> int \<Rightarrow> int \<Rightarrow> int \<Rightarrow> int \<Rightarrow> int \<Rightarrow> (int \<times> int) option" where
  "mdcExtended_loop oldR r oldS s oldT t =
     (if r \<noteq> 0 then
        let quotient = go_div oldR r in
        mdcExtended_loop r (wrap64 (oldR - wrap64 (quotient * r)))
                         s (wrap64 (oldS - wrap64 (quotient * s)))
                         t (wrap64 (oldT - wrap64 (quotient * t)))
      else Some (oldS, oldT))"

declare mdcExtended_loop.simps [code]

definition mdcExtended :: "int \<Rightarrow> int \<Rightarrow> (int \<times> int) option" where
  "mdcExtended a b = mdcExtended_loop a b 1 0 0 1"

section \<open>Primality test\<close>

text \<open>
  \<^verbatim>\<open>isPrime\<close>: the loop over the bases \<open>a = 1, \<dots>, 999999\<close>. It returns false at the first
  base with \<open>mdc(a, n) = 1\<close> and \<open>modpow(a, n-1, n) \<noteq> 1\<close>; when \<^verbatim>\<open>modpow\<close> does not
  return, neither does the loop. (\<open>g\<close> is the value of \<open>mdc(a, n)\<close>.)
\<close>

partial_function (option) isPrime_loop :: "int \<Rightarrow> int \<Rightarrow> (error + bool) option" where
  "isPrime_loop a n =
     (if a < 1000000 then
        bindR (Some (mdc a n)) (\<lambda>g.
          if g = 1 then
            bindR (modpow a (wrap64 (n - 1)) n) (\<lambda>m.
              if m \<noteq> 1 then Some (Inr False) else isPrime_loop (a + 1) n)
          else isPrime_loop (a + 1) n)
      else Some (Inr True))"

declare isPrime_loop.simps [code]

definition isPrime :: "int \<Rightarrow> (error + bool) option" where
  "isPrime n = isPrime_loop 1 n"

section \<open>Key generation\<close>

text \<open>
  The two random bytes read from the system source are combined into a 16-bit number,
  \<^verbatim>\<open>uint16(b0) | uint16(b1) << 8\<close>, and converted to \<^verbatim>\<open>int64\<close>.
\<close>

definition uint16_of_bytes :: "8 word \<Rightarrow> 8 word \<Rightarrow> int" where
  "uint16_of_bytes b0 b1 = uint (or (ucast b0) (push_bit 8 (ucast b1)) :: 16 word)"

text \<open>
  The generators consume random bytes. \<open>generateRandomPrime rs p rs'\<close> reads: started
  with the random bytes \<open>rs\<close> to come, the call returns \<open>p\<close> and leaves \<open>rs'\<close>. Each
  iteration of the loop reads two bytes; a candidate above 54772 or one that \<^verbatim>\<open>isPrime\<close>
  rejects starts the next iteration.
\<close>

inductive generateRandomPrime :: "8 word list \<Rightarrow> int \<Rightarrow> 8 word list \<Rightarrow> bool" where
  grp_too_large:
    "p = uint16_of_bytes b0 b1 \<Longrightarrow> p > 54772 \<Longrightarrow> generateRandomPrime rs p' rs'
       \<Longrightarrow> generateRandomPrime (b0 # b1 # rs) p' rs'"
| grp_not_prime:
    "p = uint16_of_bytes b0 b1 \<Longrightarrow> \<not> p > 54772 \<Longrightarrow> isPrime p = Some (Inr False)
       \<Longrightarrow> generateRandomPrime rs p' rs' \<Longrightarrow> generateRandomPrime (b0 # b1 # rs) p' rs'"
| grp_return:
    "p = uint16_of_bytes b0 b1 \<Longrightarrow> \<not> p > 54772 \<Longrightarrow> isPrime p = Some (Inr True)
       \<Longrightarrow> generateRandomPrime (b0 # b1 # rs) p rs"

inductive generateE :: "8 word list \<Rightarrow> int \<Rightarrow> int \<Rightarrow> 8 word list \<Rightarrow> bool" where
  ge_retry:
    "e = uint16_of_bytes b0 b1 \<Longrightarrow> mdc e phi \<noteq> Inr 1 \<Longrightarrow> generateE rs phi e' rs'
       \<Longrightarrow> generateE (b0 # b1 # rs) phi e' rs'"
| ge_return:
    "e = uint16_of_bytes b0 b1 \<Longrightarrow> mdc e phi = Inr 1
       \<Longrightarrow> generateE (b0 # b1 # rs) phi e rs"

text \<open>
  \<^verbatim>\<open>genereateRSAKeys\<close>. \<open>genereateRSAKeys_from rs p q k rs'\<close>: the run on the random bytes
  \<open>rs\<close> draws \<open>p\<close>, then \<open>q\<close>, and returns the triple \<open>k = (n, e, d)\<close>.
\<close>

definition genereateRSAKeys_from ::
  "8 word list \<Rightarrow> int \<Rightarrow> int \<Rightarrow> int \<times> int \<times> int \<Rightarrow> 8 word list \<Rightarrow> bool" where
  "genereateRSAKeys_from rs p q k rs' \<longleftrightarrow>
     (\<exists>rs1 rs2 e s t.
        generateRandomPrime rs p rs1 \<and> generateRandomPrime rs1 q rs2 \<and>
        generateE rs2 (wrap64 (wrap64 (p - 1) * wrap64 (q - 1))) e rs' \<and>
        mdcExtended e (wrap64 (wrap64 (p - 1) * wrap64 (q - 1))) = Some (s, t) \<and>
        k = (wrap64 (p * q), e,
             if s < 0 then wrap64 (s + wrap64 (wrap64 (p - 1) * wrap64 (q - 1))) else s))"

definition genereateRSAKeys :: "8 word list \<Rightarrow> int \<times> int \<times> int \<Rightarrow> 8 word list \<Rightarrow> bool" where
  "genereateRSAKeys rs k rs' \<longleftrightarrow> (\<exists>p q. genereateRSAKeys_from rs p q k rs')"

section \<open>Key recovery\<close>

text \<open>
  \<^verbatim>\<open>findPrivateKey\<close>: the scan \<^verbatim>\<open>for i := n - 1; i >= 2; i--\<close> for the first divisor of
  \<open>n\<close>; \<open>p\<close> and \<open>q\<close> stay 0 when there is none.
\<close>

function findDivisor :: "int \<Rightarrow> int \<Rightarrow> int \<times> int" where
  "findDivisor n i =
     (if i \<ge> 2 then
        if go_rem n i = 0 then (i, go_div n i) else findDivisor n (i - 1)
      else (0, 0))"
  by pat_completeness auto
termination
  by (relation "measure (\<lambda>(n, i). nat i)") auto

declare findDivisor.simps [simp del]

definition findPrivateKey :: "int \<Rightarrow> int \<Rightarrow> int option" where
  "findPrivateKey n e =
     (let (p, q) = findDivisor n (wrap64 (n - 1));
          phi = wrap64 (wrap64 (p - 1) * wrap64 (q - 1))
      in map_option (\<lambda>(s, t). if s < 0 then wrap64 (s + phi) else s) (mdcExtended e phi))"

section \<open>Go library functions used by the codec\<close>

text \<open>
  Strings are byte sequences. The functions below model the parts of Go's standard
  library the codec calls: \<^verbatim>\<open>strconv.Atoi\<close>, \<^verbatim>\<open>fmt.Sprintf\<close> with the verbs \<^verbatim>\<open>%d\<close>,
  \<^verbatim>\<open>%02d\<close> and \<^verbatim>\<open>%0*d\<close>, \<^verbatim>\<open>strings.Index\<close>, \<^verbatim>\<open>strings.Replace\<close>, the runes that
  \<^verbatim>\<open>range\<close> yields for a string, and the conversion \<^verbatim>\<open>string(rune)\<close>.
\<close>

definition digit_char :: "int \<Rightarrow> char" where
  "digit_char d = char_of (48 + d)"

definition is_digit :: "char \<Rightarrow> bool" where
  "is_digit c \<longleftrightarrow> 48 \<le> (of_char c :: int) \<and> (of_char c :: int) \<le> 57"

definition digit_val :: "char \<Rightarrow> int" where
  "digit_val c = of_char c - 48"

text \<open>The decimal digits of a non-negative number.\<close>

function digits_of :: "int \<Rightarrow> string" where
  "digits_of n = (if n < 10 then [digit_char n] else digits_of (n div 10) @ [digit_char (n mod 10)])"
  by pat_completeness auto
termination
  by (relation "measure nat") auto

declare digits_of.simps [simp del]

definition digits_value :: "string \<Rightarrow> int" where
  "digits_value s = foldl (\<lambda>v c. v * 10 + digit_val c) 0 s"

text \<open>
  \<^verbatim>\<open>strconv.Atoi\<close>, the value only (every caller discards the error): an optional sign
  and decimal digits; 0 on a syntax error; the nearest \<^verbatim>\<open>int64\<close> when out of range.
\<close>

definition Atoi :: "string \<Rightarrow> int" where
  "Atoi s =
     (if s = [] then 0
      else
        let neg = (hd s = CHR ''-'');
            ds = (if hd s = CHR ''-'' \<or> hd s = CHR ''+'' then tl s else s)
        in if ds = [] \<or> \<not> list_all is_digit ds then 0
           else
             let v = digits_value ds
             in if neg then (if v > 2 ^ 63 then - (2 ^ 63) else - v)
                else (if v \<ge> 2 ^ 63 then 2 ^ 63 - 1 else v))"

definition pad0 :: "nat \<Rightarrow> string \<Rightarrow> string" where
  "pad0 w ds = replicate (w - length ds) CHR ''0'' @ ds"

text \<open>\<^verbatim>\<open>fmt.Sprintf("%d", v)\<close>.\<close>

definition Sprintf_d :: "int \<Rightarrow> string" where
  "Sprintf_d v = (if v < 0 then CHR ''-'' # digits_of (- v) else digits_of v)"

text \<open>
  \<^verbatim>\<open>fmt.Sprintf("%0*d", w, v)\<close> for a width \<open>w \<ge> 0\<close>, and \<^verbatim>\<open>"%02d"\<close> as its instance
  \<open>w = 2\<close>: zeros are inserted after the sign, which counts towards the width.
\<close>

definition Sprintf_0wd :: "nat \<Rightarrow> int \<Rightarrow> string" where
  "Sprintf_0wd w v =
     (if v < 0 then CHR ''-'' # pad0 (w - 1) (digits_of (- v))
      else pad0 w (digits_of v))"

text \<open>\<^verbatim>\<open>strings.Index(s, sub)\<close>: the first position where \<open>sub\<close> occurs in \<open>s\<close>, or \<open>-1\<close>.\<close>

fun strings_Index_from :: "string \<Rightarrow> string \<Rightarrow> nat \<Rightarrow> int" where
  "strings_Index_from [] sub i = (if sub = [] then int i else - 1)"
| "strings_Index_from (c # cs) sub i =
     (if take (length sub) (c # cs) = sub then int i else strings_Index_from cs sub (i + 1))"

definition strings_Index :: "string \<Rightarrow> string \<Rightarrow> int" where
  "strings_Index s sub = strings_Index_from s sub 0"

text \<open>
  UTF-8. \<open>utf8_first b\<close> is the length of the sequence a lead byte \<open>b\<close> starts and the
  range accepted for its second byte; \<open>decodeRune\<close> returns the rune at the head of a
  non-empty string and its width, with the replacement rune \<open>0xFFFD\<close> and width 1 for an
  invalid sequence.
\<close>

type_synonym rune = int

definition utf8_first :: "int \<Rightarrow> (nat \<times> int \<times> int) option" where
  "utf8_first b =
     (if 194 \<le> b \<and> b \<le> 223 then Some (2, 128, 191)
      else if b = 224 then Some (3, 160, 191)
      else if 225 \<le> b \<and> b \<le> 236 then Some (3, 128, 191)
      else if b = 237 then Some (3, 128, 159)
      else if 238 \<le> b \<and> b \<le> 239 then Some (3, 128, 191)
      else if b = 240 then Some (4, 144, 191)
      else if 241 \<le> b \<and> b \<le> 243 then Some (4, 128, 191)
      else if b = 244 then Some (4, 128, 143)
      else None)"

definition continuation :: "int \<Rightarrow> bool" where
  "continuation b \<longleftrightarrow> 128 \<le> b \<and> b \<le> 191"

definition decodeRune :: "string \<Rightarrow> rune \<times> nat" where
  "decodeRune s =
     (let b = map of_char s; s0 = b ! 0 in
      if s0 < 128 then (s0, 1)
      else case utf8_first s0 of
        None \<Rightarrow> (65533, 1)
      | Some (sz, lo, hi) \<Rightarrow>
          if length b < sz then (65533, 1)
          else if b ! 1 < lo \<or> hi < b ! 1 then (65533, 1)
          else if sz \<le> 2 then ((s0 mod 32) * 64 + b ! 1 mod 64, 2)
          else if \<not> continuation (b ! 2) then (65533, 1)
          else if sz \<le> 3 then ((s0 mod 16) * 4096 + (b ! 1 mod 64) * 64 + b ! 2 mod 64, 3)
          else if \<not> continuation (b ! 3) then (65533, 1)
          else ((s0 mod 8) * 262144 + (b ! 1 mod 64) * 4096 + (b ! 2 mod 64) * 64 + b ! 3 mod 64, 4))"

lemma decodeRune_width: "decodeRune s = (r, w) \<Longrightarrow> 0 < w"
  by (auto simp: decodeRune_def Let_def split: if_splits option.splits)

text \<open>The runes \<^verbatim>\<open>for _, c := range s\<close> yields.\<close>

function runes :: "string \<Rightarrow> rune list" where
  "runes s = (if s = [] then [] else (case decodeRune s of (r, w) \<Rightarrow> r # runes (drop w s)))"
  by pat_completeness auto
termination
  by (relation "measure length") (auto dest: decodeRune_width [OF sym])

declare runes.simps [simp del]

text \<open>\<^verbatim>\<open>string(r)\<close> for a rune: its UTF-8 encoding, that of \<open>0xFFFD\<close> for an invalid rune.\<close>

definition string_of_rune :: "rune \<Rightarrow> string" where
  "string_of_rune r = map char_of
     (if r < 0 \<or> (55296 \<le> r \<and> r \<le> 57343) \<or> 1114111 < r then [239, 191, 189]
      else if r < 128 then [r]
      else if r < 2048 then [192 + r div 64, 128 + r mod 64]
      else if r < 65536 then [224 + r div 4096, 128 + (r div 64) mod 64, 128 + r mod 64]
      else [240 + r div 262144, 128 + (r div 4096) mod 64, 128 + (r div 64) mod 64, 128 + r mod 64])"

section \<open>The block codec\<close>

text \<open>
  \<^verbatim>\<open>blockSize\<close>: the loop appends \<^verbatim>\<open>"25"\<close> to \<open>blockI\<close> until the number read from
  \<open>blockI + "25"\<close> exceeds \<open>n\<close>. It has no other exit.
\<close>

partial_function (option) blockSize_loop :: "string \<Rightarrow> int \<Rightarrow> nat option" where
  "blockSize_loop blockI n =
     (let bi = Atoi (blockI @ ''25'') in
      if bi > n then Some (length blockI) else blockSize_loop (blockI @ ''25'') n)"

declare blockSize_loop.simps [code]

definition blockSize :: "int \<Rightarrow> nat option" where
  "blockSize n = blockSize_loop [] n"

definition countDigits :: "int \<Rightarrow> nat" where
  "countDigits n = length (Sprintf_d n)"

definition alphabet :: string where
  "alphabet = ''ABCDEFGHIJKLMNOPQRSTUVWXYZ''"

text \<open>
  \<^verbatim>\<open>encodeMessage\<close>. \<open>letterDigits\<close> is the first loop (one two-digit string per rune),
  \<open>makeBlock\<close> the inner loop over \<open>j\<close>, \<open>makeBlocks\<close> the outer loop over \<open>i\<close>, which
  advances by \<open>bSize / 2\<close> and so never ends when that is 0 and there is a letter,
  \<open>encodeBlocks\<close> the loop that raises each block to the power \<open>e\<close>.
\<close>

definition letterDigits :: "string \<Rightarrow> string list" where
  "letterDigits msg =
     map (\<lambda>c. Sprintf_0wd 2 (strings_Index alphabet (string_of_rune c))) (runes msg)"

definition makeBlock :: "string list \<Rightarrow> nat \<Rightarrow> nat \<Rightarrow> string" where
  "makeBlock ms half i =
     foldl (\<lambda>block j. if i + j < length ms then block @ ms ! (i + j) else block @ ''23'')
       [] [0..<half]"

partial_function (option) makeBlocks ::
  "string list \<Rightarrow> nat \<Rightarrow> nat \<Rightarrow> string list \<Rightarrow> string list option" where
  "makeBlocks ms half i blocks =
     (if i < length ms then makeBlocks ms half (i + half) (blocks @ [makeBlock ms half i])
      else Some blocks)"

declare makeBlocks.simps [code]

fun encodeBlocks :: "int \<Rightarrow> int \<Rightarrow> string list \<Rightarrow> (error + string list) option" where
  "encodeBlocks n e [] = Some (Inr [])"
| "encodeBlocks n e (b # bs) =
     bindR (modpow (Atoi b) e n) (\<lambda>c.
       bindR (encodeBlocks n e bs) (\<lambda>cblocks.
         Some (Inr (Sprintf_0wd (countDigits n) c # cblocks))))"

definition encodeMessage :: "int \<Rightarrow> int \<Rightarrow> string \<Rightarrow> (error + string) option" where
  "encodeMessage n e msg =
     (let ms = letterDigits msg in
      Option.bind (blockSize n) (\<lambda>bSize.
        Option.bind (makeBlocks ms (bSize div 2) 0 []) (\<lambda>blocks.
          bindR (encodeBlocks n e blocks) (\<lambda>cblocks.
            Some (Inr (foldl (\<lambda>encodedResult cb. encodedResult @ cb @ '' '') [] cblocks))))))"

text \<open>
  \<^verbatim>\<open>decodeMessage\<close>. \<open>readBlock\<close> is the inner loop that copies \<open>cbSize\<close> bytes and panics
  when the message ends first, \<open>splitBlocks\<close> the loop over \<open>i\<close> around it, \<open>decodeBlocks\<close>
  the loop that raises each block to the power \<open>d\<close>, \<open>blockLetters\<close> the loop over the
  digit pairs of one block (indexing \<open>b[i+1]\<close> and \<open>alphabet[letterint]\<close> can panic),
  \<open>blocksText\<close> the loop over the blocks.
\<close>

definition readBlock :: "string \<Rightarrow> nat \<Rightarrow> nat \<Rightarrow> error + string" where
  "readBlock msg i cbSize =
     foldl (\<lambda>block j. bindE block (\<lambda>b.
              if i + j \<ge> length msg then Inl WrongBlockLength else Inr (b @ [msg ! (i + j)])))
       (Inr []) [0..<cbSize]"

partial_function (option) splitBlocks ::
  "string \<Rightarrow> nat \<Rightarrow> nat \<Rightarrow> string list \<Rightarrow> (error + string list) option" where
  "splitBlocks msg cbSize i cBlocks =
     (if i < length msg then
        bindR (Some (readBlock msg i cbSize)) (\<lambda>block.
          splitBlocks msg cbSize (i + cbSize) (cBlocks @ [block]))
      else Some (Inr cBlocks))"

declare splitBlocks.simps [code]

fun decodeBlocks :: "int \<Rightarrow> int \<Rightarrow> nat \<Rightarrow> string list \<Rightarrow> (error + string list) option" where
  "decodeBlocks n d bSize [] = Some (Inr [])"
| "decodeBlocks n d bSize (b # bs) =
     bindR (modpow (Atoi b) d n) (\<lambda>c.
       bindR (decodeBlocks n d bSize bs) (\<lambda>blocks.
         Some (Inr (Sprintf_0wd bSize c # blocks))))"

function blockLetters :: "string \<Rightarrow> nat \<Rightarrow> string \<Rightarrow> error + string" where
  "blockLetters b i ret =
     (if i < length b then
        if i + 1 \<ge> length b then Inl IndexOutOfRange
        else
          let letterint = Atoi [b ! i, b ! (i + 1)] in
          if letterint < 0 \<or> letterint \<ge> int (length alphabet) then Inl IndexOutOfRange
          else blockLetters b (i + 2) (ret @ [alphabet ! nat letterint])
      else Inr ret)"
  by pat_completeness auto
termination
  by (relation "measure (\<lambda>(b, i, ret). length b - i)") auto

declare blockLetters.simps [simp del]

fun blocksText :: "string list \<Rightarrow> string \<Rightarrow> error + string" where
  "blocksText [] ret = Inr ret"
| "blocksText (b # bs) ret = bindE (blockLetters b 0 ret) (\<lambda>ret'. blocksText bs ret')"

definition decodeMessage :: "int \<Rightarrow> int \<Rightarrow> string \<Rightarrow> (error + string) option" where
  "decodeMessage n d msg0 =
     (let msg = filter (\<lambda>c. c \<noteq> CHR '' '') msg0;
          cbSize = countDigits n
      in bindR (splitBlocks msg cbSize 0 []) (\<lambda>cBlocks.
           bindR (map_option Inr (blockSize n)) (\<lambda>bSize.
             bindR (decodeBlocks n d bSize cBlocks) (\<lambda>blocks.
               Some (blocksText blocks [])))))"

section \<open>Notions used in the statements\<close>

text \<open>
  The invariant that bounds the coefficients: consecutive coefficients alternate in sign
  and \<open>\<bar>u\<bar> * R + \<bar>U\<bar> * r\<close> stays equal to the other input.
\<close>

definition coef_inv :: "int \<Rightarrow> int \<Rightarrow> int \<Rightarrow> int \<Rightarrow> int \<Rightarrow> bool" where
  "coef_inv R r U u B \<longleftrightarrow>
     (0 \<le> U \<and> u \<le> 0 \<or> U \<le> 0 \<and> 0 \<le> u) \<and> \<bar>u\<bar> * R + \<bar>U\<bar> * r = B"

text \<open>Primality of an integer, by trial division.\<close>

definition is_prime :: "int \<Rightarrow> bool" where
  "is_prime p \<longleftrightarrow> 1 < p \<and> (\<forall>d \<in> {2..<p}. \<not> d dvd p)"

text \<open>Numbers that pass the Fermat test for every coprime base.\<close>

definition fermat_pseudoprime :: "int \<Rightarrow> bool" where
  "fermat_pseudoprime p \<longleftrightarrow> 1 < p \<and> (\<forall>a. coprime a p \<longrightarrow> a ^ nat (p - 1) mod p = 1)"

text \<open>What the test decides, for a modulus in the range where no product overflows.\<close>

definition fermat_test :: "int \<Rightarrow> int \<Rightarrow> bool" where
  "fermat_test a n \<longleftrightarrow> (\<forall>k \<in> {a..<1000000}. coprime k n \<longrightarrow> k ^ nat (n - 1) mod n = 1)"

text \<open>The blocks of width \<open>k\<close> of a list.\<close>

function chunks :: "nat \<Rightarrow> 'a list \<Rightarrow> 'a list list" where
  "chunks k xs = (if xs = [] \<or> k = 0 then [] else take k xs # chunks k (drop k xs))"
  by pat_completeness auto
termination
  by (relation "measure (\<lambda>(k, xs). length xs)") auto

declare chunks.simps [simp del]

text \<open>A block of letter codes, and the number it denotes.\<close>

definition block_of :: "int list \<Rightarrow> string" where
  "block_of idxs = concat (map (Sprintf_0wd 2) idxs)"

definition pairs_value :: "int list \<Rightarrow> int" where
  "pairs_value idxs = foldl (\<lambda>v i. v * 100 + i) 0 idxs"

definition letter_codes :: "int list \<Rightarrow> bool" where
  "letter_codes idxs \<longleftrightarrow> list_all (\<lambda>i. 0 \<le> i \<and> i \<le> 25) idxs"

fun all25 :: "nat \<Rightarrow> int" where
  "all25 0 = 0"
| "all25 (Suc j) = all25 j * 100 + 25"

definition letter_idxs :: "string \<Rightarrow> int list" where
  "letter_idxs msg = map (\<lambda>c. of_char c - 65) msg"

text \<open>
  The letter codes of an arbitrary string: the position in the alphabet for the runes \<open>A..Z\<close>
  (65 to 90), and \<open>-1\<close> for every other rune.
\<close>

definition rune_codes :: "string \<Rightarrow> int list" where
  "rune_codes msg = map (\<lambda>c. if 65 \<le> c \<and> c \<le> 90 then c - 65 else - 1) (runes msg)"

text \<open>The blocks of a list of letter codes, the last one filled up with 23 (the letter X).\<close>

function pchunks :: "nat \<Rightarrow> int list \<Rightarrow> int list list" where
  "pchunks half xs =
     (if xs = [] \<or> half = 0 then []
      else take half (xs @ replicate half 23) # pchunks half (drop half xs))"
  by pat_completeness auto
termination
  by (relation "measure (\<lambda>(half, xs). length xs)") auto

declare pchunks.simps [simp del]

definition letter :: "int \<Rightarrow> char" where
  "letter i = alphabet ! nat i"

text \<open>What a block of letter codes is encoded to.\<close>

definition encoded :: "int \<Rightarrow> int \<Rightarrow> int list \<Rightarrow> string" where
  "encoded n e c = Sprintf_0wd (countDigits n) (pairs_value c ^ nat e mod n)"

section \<open>Facts about the integer operations\<close>

lemma wrap64_id: "int64 x \<Longrightarrow> wrap64 x = x"
  by (simp add: int64_def wrap64_def)

lemma int64_wrap64: "int64 (wrap64 x)"
  unfolding int64_def wrap64_def
  using pos_mod_bound [of "2 ^ 64" "x + 2 ^ 63"] pos_mod_sign [of "2 ^ 64" "x + 2 ^ 63"]
  by simp

lemma int64_iff: "int64 x \<longleftrightarrow> - 9223372036854775808 \<le> x \<and> x \<le> 9223372036854775807"
  by (auto simp: int64_def)

lemma go_div_nonneg: "0 \<le> a \<Longrightarrow> a < 2 ^ 63 \<Longrightarrow> 0 < b \<Longrightarrow> go_div a b = a div b"
proof -
  assume a: "0 \<le> a" "a < 2 ^ 63" "0 < b"
  have "0 \<le> a div b" using a by (simp add: pos_imp_zdiv_nonneg_iff)
  moreover have "a div b \<le> a" using zdiv_mono2 [of a 1 b] a by simp
  ultimately have "int64 (a div b)" using a by (simp add: int64_def)
  then show ?thesis using a by (cases "a = 0") (simp_all add: go_div_def wrap64_id)
qed

lemma modpow_pow:
  assumes "1 \<le> b" "b < 2 ^ 63" "0 < n" "n \<le> 3037000500" "\<bar>a\<bar> * n < 2 ^ 63"
  shows "modpow a b n = Some (Inr (if b = 1 then a else a ^ nat b mod n))"
  using assms(1,2)
proof (induction "nat b" arbitrary: b rule: less_induct)
  case less
  show ?case
  proof (cases "b = 1")
    case True
    then show ?thesis by (subst modpow.simps) simp
  next
    case False
    define c where "c = b div 2"
    have c: "1 \<le> c" "c < 2 ^ 63" "nat c < nat b" "go_div b 2 = c"
      using less.prems False by (auto simp: c_def go_div_nonneg)
    have b: "b = 2 * c + b mod 2" by (simp add: c_def)
    have rem: "go_rem b 2 = b mod 2" using less.prems by (simp add: go_rem_nonneg)
    define x where "x = a ^ nat c mod n"
    have x: "0 \<le> x" "x < n" using assms(3) by (simp_all add: x_def)
    have xx: "int64 (x * x)"
    proof -
      have "x * x \<le> (n - 1) * (n - 1)" using x by (intro mult_mono) auto
      also have "\<dots> \<le> 3037000499 * 3037000499" using assms(3,4) by (intro mult_mono) auto
      finally have "x * x \<le> 9223372030926249001" by simp
      moreover have "0 \<le> x * x" using x by simp
      ultimately show ?thesis unfolding int64_iff by linarith
    qed
    define y where "y = x * x mod n"
    have y: "0 \<le> y" "y < n" using assms(3) by (simp_all add: y_def)
    have ya: "int64 (y * a)"
    proof -
      have "\<bar>y * a\<bar> \<le> n * \<bar>a\<bar>" unfolding abs_mult using y by (intro mult_mono) auto
      then show ?thesis using assms(5) by (simp add: int64_iff mult.commute abs_le_iff)
    qed
    have ih: "modpow a c n = Some (Inr (if c = 1 then a else a ^ nat c mod n))"
      using less.hyps [of c] c by simp
    have r: "(if c = 1 then a else a ^ nat c mod n) mod n = x"
      by (simp add: x_def)
    have yeq: "y = a ^ nat (2 * c) mod n"
    proof -
      have "nat (2 * c) = nat c + nat c" using c by simp
      then show ?thesis by (simp add: y_def x_def power_add mod_mult_eq)
    qed
    have odd: "y * a mod n = a ^ nat (2 * c + 1) mod n"
    proof -
      have "nat (2 * c + 1) = Suc (nat (2 * c))" using c by simp
      then show ?thesis by (simp add: yeq mod_mult_right_eq mult.commute)
    qed
    have step: "modpow a b n = Some (Inr (if b mod 2 = 0 then y else y * a mod n))"
      using False ih rem xx ya assms(3)
      by (subst modpow.simps) (simp add: c r mod_go_pos wrap64_id y_def [symmetric])
    show ?thesis
    proof (cases "b mod 2 = 0")
      case True
      then have "b = 2 * c" using b by simp
      then show ?thesis using False True step yeq by simp
    next
      case odd': False
      then have "b = 2 * c + 1" using b by presburger
      then show ?thesis using False odd' step odd by simp
    qed
  qed
qed

section \<open>Euclid's algorithm and its extension\<close>

lemma mdc_eq: "mdc a b = Inr (if 0 < b then gcd a b else if b < 0 then - gcd a b else a)"
proof (induction a b rule: mdc.induct)
  case (1 a b)
  show ?case
  proof (cases "b = 0")
    case True
    then show ?thesis by (subst mdc.simps) simp
  next
    case False
    have g: "gcd a b = gcd b (a mod b)" by (metis gcd_red_int)
    have ih: "mdc b (a mod b) = Inr (if 0 < a mod b then gcd b (a mod b) else if a mod b < 0 then - gcd b (a mod b) else b)"
      using 1 [OF False, of "a mod b"] False by (simp add: mod_go_eq)
    have step: "mdc a b = mdc b (a mod b)"
      using False by (subst mdc.simps) (simp add: mod_go_eq)
    show ?thesis
    proof (cases "0 < b")
      case True
      then have "0 \<le> a mod b" by simp
      then consider "0 < a mod b" | "a mod b = 0" by linarith
      then show ?thesis
      proof cases
        case 1
        then show ?thesis using True ih g step by simp
      next
        case 2
        then show ?thesis using True ih g step by simp
      qed
    next
      case neg: False
      then have b: "b < 0" using False by simp
      then have "a mod b \<le> 0" by simp
      then consider "a mod b < 0" | "a mod b = 0" by linarith
      then show ?thesis
      proof cases
        case 1
        then show ?thesis using b ih g step by simp
      next
        case 2
        then show ?thesis using b ih g step by simp
      qed
    qed
  qed
qed

lemma coef_step:
  assumes "0 < r" "0 \<le> R" "coef_inv R r U u B"
  shows "coef_inv r (R mod r) u (U - (R div r) * u) B
         \<and> \<bar>(R div r) * u\<bar> \<le> B \<and> \<bar>U - (R div r) * u\<bar> \<le> B"
proof -
  define q where "q = R div r"
  have q: "0 \<le> q" using assms by (simp add: q_def pos_imp_zdiv_nonneg_iff)
  have m: "R mod r = R - q * r" by (simp add: q_def minus_div_mult_eq_mod)
  have m0: "0 \<le> R mod r" using assms by simp
  from assms(3) consider (a) "0 \<le> U" "u \<le> 0" "- u * R + U * r = B"
    | (b) "U \<le> 0" "0 \<le> u" "u * R - U * r = B"
    by (auto simp: coef_inv_def)
  then show ?thesis
  proof cases
    case a
    have qu: "q * u \<le> 0" using q a by (simp add: mult_nonneg_nonpos)
    then have n: "0 \<le> U - q * u" using a by simp
    have eq: "(U - q * u) * r + (- u) * (R mod r) = B"
      using a(3) by (simp add: m algebra_simps)
    have "0 \<le> - u" using a by simp
    then have "0 \<le> (- u) * (R mod r)" using m0 by (rule mult_nonneg_nonneg)
    then have "(U - q * u) * r \<le> B" using eq by linarith
    moreover have "(U - q * u) * 1 \<le> (U - q * u) * r" using n assms(1) by (intro mult_left_mono) auto
    ultimately have b1: "U - q * u \<le> B" by simp
    have ab: "\<bar>U - q * u\<bar> = U - q * u" "\<bar>u\<bar> = - u" "\<bar>q * u\<bar> = - (q * u)"
      using a n qu by simp_all
    have "- (q * u) \<le> U - q * u" using a by simp
    then show ?thesis unfolding q_def [symmetric] coef_inv_def ab
      using a n eq b1 by simp
  next
    case b
    have qu: "0 \<le> q * u" using q b by simp
    then have n: "U - q * u \<le> 0" using b by simp
    have eq: "(q * u - U) * r + u * (R mod r) = B"
      using b(3) by (simp add: m algebra_simps)
    have "0 \<le> u * (R mod r)" using b(2) m0 by (rule mult_nonneg_nonneg)
    then have "(q * u - U) * r \<le> B" using eq by linarith
    moreover have "(q * u - U) * 1 \<le> (q * u - U) * r" using n assms(1) by (intro mult_left_mono) auto
    ultimately have b1: "q * u - U \<le> B" by simp
    have ab: "\<bar>U - q * u\<bar> = q * u - U" "\<bar>u\<bar> = u" "\<bar>q * u\<bar> = q * u"
      using b n qu by simp_all
    have "q * u \<le> q * u - U" using b by simp
    then show ?thesis unfolding q_def [symmetric] coef_inv_def ab
      using b n eq b1 by simp
  qed
qed

lemma int64_abs_le: "\<bar>x\<bar> \<le> B \<Longrightarrow> B < 2 ^ 63 \<Longrightarrow> int64 x"
  by (auto simp: int64_def)

lemma mdcExtended_loop_inv:
  assumes "0 \<le> R" "0 \<le> r" "R < 2 ^ 63" "r < 2 ^ 63" "A < 2 ^ 63" "B < 2 ^ 63"
    and "coef_inv R r U u B" "coef_inv R r V v A"
    and "R = A * U + B * V" "r = A * u + B * v" "\<bar>u\<bar> \<le> B"
  shows "\<exists>S T. mdcExtended_loop R r U u V v = Some (S, T) \<and> A * S + B * T = gcd R r
           \<and> (if r = 0 then S = U else \<bar>S\<bar> \<le> B)"
  using assms
proof (induction "nat r" arbitrary: R r U u V v rule: less_induct)
  case less
  show ?case
  proof (cases "r = 0")
    case True
    then show ?thesis using less.prems by (subst mdcExtended_loop.simps) simp
  next
    case False
    then have rpos: "0 < r" using less.prems by simp
    define q where "q = R div r"
    have gd: "go_div R r = q" using less.prems rpos by (simp add: q_def go_div_nonneg)
    have q0: "0 \<le> q" using less.prems rpos by (simp add: q_def pos_imp_zdiv_nonneg_iff)
    have m: "R mod r = R - q * r" by (simp add: q_def minus_div_mult_eq_mod)
    have m0: "0 \<le> R mod r" "R mod r < r" using rpos by simp_all
    have qr: "int64 (q * r)"
    proof -
      have "0 \<le> q * r" using q0 rpos by simp
      moreover have "q * r \<le> R" using m m0 by linarith
      ultimately show ?thesis using less.prems(3) by (simp add: int64_def)
    qed
    have su: "coef_inv r (R mod r) u (U - q * u) B" "\<bar>q * u\<bar> \<le> B" "\<bar>U - q * u\<bar> \<le> B"
      using coef_step [OF rpos less.prems(1) less.prems(7)] by (simp_all add: q_def)
    have sv: "coef_inv r (R mod r) v (V - q * v) A" "\<bar>q * v\<bar> \<le> A" "\<bar>V - q * v\<bar> \<le> A"
      using coef_step [OF rpos less.prems(1) less.prems(8)] by (simp_all add: q_def)
    have w: "wrap64 (q * r) = q * r" "wrap64 (q * u) = q * u" "wrap64 (q * v) = q * v"
      "wrap64 (U - q * u) = U - q * u" "wrap64 (V - q * v) = V - q * v"
      "wrap64 (R - q * r) = R mod r"
    proof -
      show "wrap64 (q * r) = q * r" using qr by (rule wrap64_id)
      show "wrap64 (q * u) = q * u" "wrap64 (U - q * u) = U - q * u"
        using su(2,3) less.prems(6) by (auto intro!: wrap64_id int64_abs_le)
      show "wrap64 (q * v) = q * v" "wrap64 (V - q * v) = V - q * v"
        using sv(2,3) less.prems(5) by (auto intro!: wrap64_id int64_abs_le)
      have "int64 (R mod r)" using m0 less.prems(4) by (simp add: int64_def)
      then show "wrap64 (R - q * r) = R mod r" by (simp add: m wrap64_id)
    qed
    have step: "mdcExtended_loop R r U u V v
                  = mdcExtended_loop r (R mod r) u (U - q * u) v (V - q * v)"
      using False by (subst mdcExtended_loop.simps) (simp add: gd w Let_def)
    have "R - q * r = A * U + B * V - q * (A * u + B * v)"
      using less.prems(9,10) by simp
    then have eqs: "r = A * u + B * v" "R mod r = A * (U - q * u) + B * (V - q * v)"
      using less.prems(10) unfolding m by (simp_all only: algebra_simps)
    have "nat (R mod r) < nat r" using m0 rpos by simp
    from less.hyps [OF this, of r u "U - q * u" v "V - q * v"]
    obtain S T where st: "mdcExtended_loop r (R mod r) u (U - q * u) v (V - q * v) = Some (S, T)"
      "A * S + B * T = gcd r (R mod r)" "if R mod r = 0 then S = u else \<bar>S\<bar> \<le> B"
      using less.prems su sv eqs m0 rpos by auto
    have g: "gcd r (R mod r) = gcd R r" by (metis gcd_red_int)
    have "\<bar>S\<bar> \<le> B" using st(3) less.prems(11) by (auto split: if_splits)
    then show ?thesis using st step g False by simp
  qed
qed

lemma mdcExtended_nonneg:
  assumes "0 \<le> a" "0 \<le> b" "a < 2 ^ 63" "b < 2 ^ 63"
  shows "\<exists>s t. mdcExtended a b = Some (s, t) \<and> a * s + b * t = gcd a b
           \<and> (if b = 0 then s = 1 else \<bar>s\<bar> \<le> b)"
  unfolding mdcExtended_def
  using assms by (intro mdcExtended_loop_inv) (simp_all add: coef_inv_def)

section \<open>Number theory\<close>

lemma is_prime_dvd: "is_prime p \<Longrightarrow> 0 \<le> d \<Longrightarrow> d dvd p \<Longrightarrow> d = 1 \<or> d = p"
proof -
  assume p: "is_prime p" and d: "0 \<le> d" "d dvd p"
  have "d \<noteq> 0" using p d by (auto simp: is_prime_def)
  moreover have "d \<le> p" using p d by (intro zdvd_imp_le) (auto simp: is_prime_def)
  ultimately show ?thesis using p d unfolding is_prime_def by force
qed

lemma is_prime_coprime: "is_prime p \<Longrightarrow> \<not> p dvd a \<Longrightarrow> coprime p a"
proof -
  assume p: "is_prime p" and a: "\<not> p dvd a"
  have "gcd p a = 1 \<or> gcd p a = p" using p by (intro is_prime_dvd) auto
  then show ?thesis using a by (metis coprime_iff_gcd_eq_1 gcd_dvd2)
qed

lemma is_prime_dvd_mult: "is_prime p \<Longrightarrow> p dvd a * b \<Longrightarrow> p dvd a \<or> p dvd b"
  using is_prime_coprime coprime_dvd_mult_right_iff by blast

lemma prime_dvd_binomial:
  assumes "is_prime (int p)" "0 < k" "k < p"
  shows "p dvd (p choose k)"
proof -
  obtain k' where k: "k = Suc k'" using assms(2) by (cases k) auto
  obtain p' where p: "p = Suc p'" using assms by (cases p) auto
  have "Suc k' * (Suc p' choose Suc k') = Suc p' * (p' choose k')"
    by (rule Suc_times_binomial)
  then have "int p dvd int k * int (p choose k)" unfolding k p
    by (metis dvd_triv_left of_nat_mult)
  moreover have "\<not> int p dvd int k" using assms by (auto dest: zdvd_imp_le)
  ultimately have "int p dvd int (p choose k)" using is_prime_dvd_mult [OF assms(1)] by blast
  then show ?thesis by simp
qed

lemma prime_power_succ:
  fixes a :: int
  assumes "is_prime (int p)"
  shows "int p dvd (a + 1) ^ p - a ^ p - 1"
proof -
  have p2: "2 \<le> p" using assms by (simp add: is_prime_def)
  have set: "{..p} = insert 0 (insert p {1..<p})" using p2 by auto
  have "(a + 1) ^ p = (\<Sum>k\<le>p. of_nat (p choose k) * a ^ k * 1 ^ (p - k))"
    by (rule binomial_ring)
  also have "\<dots> = 1 + a ^ p + (\<Sum>k\<in>{1..<p}. of_nat (p choose k) * a ^ k)"
    unfolding set using p2 by (simp add: sum.insert)
  finally have "(a + 1) ^ p - a ^ p - 1 = (\<Sum>k\<in>{1..<p}. of_nat (p choose k) * a ^ k)"
    by simp
  moreover have "int p dvd (\<Sum>k\<in>{1..<p}. of_nat (p choose k) * a ^ k)"
  proof (rule dvd_sum)
    fix k assume "k \<in> {1..<p}"
    then have "p dvd (p choose k)" using prime_dvd_binomial [OF assms, of k] by simp
    then have "int p dvd int (p choose k)" by (simp only: int_dvd_int_iff)
    then show "int p dvd of_nat (p choose k) * a ^ k" by (rule dvd_mult2)
  qed
  ultimately show ?thesis by simp
qed

lemma fermat_nat:
  assumes "is_prime (int p)"
  shows "int p dvd int a ^ p - int a"
proof (induction a)
  case 0
  have "0 < p" using assms by (simp add: is_prime_def)
  then show ?case by (simp add: zero_power)
next
  case (Suc a)
  have "int (Suc a) ^ p - int (Suc a)
          = ((int a + 1) ^ p - int a ^ p - 1) + (int a ^ p - int a)"
    by (simp add: algebra_simps)
  then show ?case using Suc prime_power_succ [OF assms, of "int a"] by (simp only: dvd_add)
qed

lemma fermat_dvd:
  assumes "is_prime p" "0 \<le> a"
  shows "p dvd a ^ nat p - a"
proof -
  have "0 \<le> p" using assms by (simp add: is_prime_def)
  then show ?thesis using fermat_nat [of "nat p" "nat a"] assms by simp
qed

lemma fermat_little:
  assumes "is_prime p" "0 \<le> a" "\<not> p dvd a"
  shows "a ^ nat (p - 1) mod p = 1"
proof -
  have p: "1 < p" using assms by (simp add: is_prime_def)
  then have "nat p = Suc (nat (p - 1))" by simp
  then have "a ^ nat p - a = a * (a ^ nat (p - 1) - 1)" by (simp add: algebra_simps)
  then have "p dvd a * (a ^ nat (p - 1) - 1)" using fermat_dvd [OF assms(1,2)] by simp
  then have "p dvd a ^ nat (p - 1) - 1" using is_prime_dvd_mult [OF assms(1)] assms(3) by blast
  then have "(a ^ nat (p - 1) - 1) mod p = 0" by simp
  then have "a ^ nat (p - 1) mod p = 1 mod p" by (metis mod_eq_dvd_iff dvd_eq_mod_eq_0)
  then show ?thesis using p by simp
qed

lemma square_dvd_binomial:
  fixes y :: int
  shows "y * y dvd (1 + y) ^ c - 1 - int c * y"
proof (induction c)
  case 0
  show ?case by simp
next
  case (Suc c)
  have "(1 + y) ^ Suc c - 1 - int (Suc c) * y
          = (1 + y) * ((1 + y) ^ c - 1 - int c * y) + int c * (y * y)"
    by (simp add: algebra_simps)
  then show ?case using Suc by (simp only: dvd_add dvd_mult dvd_triv_right)
qed

lemma coprime_of_inverse:
  fixes a :: int
  assumes "p dvd a * b - 1"
  shows "coprime a p"
proof (rule coprimeI)
  fix r assume r: "r dvd a" "r dvd p"
  then have "r dvd a * b" "r dvd a * b - 1" using assms by (auto intro: dvd_trans)
  then have "r dvd a * b - (a * b - 1)" by (rule dvd_diff)
  then show "is_unit r" by simp
qed

lemma pseudoprime_squarefree:
  assumes "fermat_pseudoprime p" "0 < c" "c * c dvd p"
  shows "c = 1"
proof (rule ccontr)
  assume "c \<noteq> 1"
  then have c: "1 < c" using assms(2) by simp
  have p: "1 < p" using assms(1) by (simp add: fermat_pseudoprime_def)
  obtain w where w: "p = c * c * w" using assms(3) by (auto simp: dvd_def)
  have wpos: "0 < w" using p c w by (metis mult_pos_pos not_less zero_less_mult_pos less_le_trans zero_less_numeral less_trans zero_less_one mult.commute)
  define y where "y = c * w"
  have py: "p = c * y" by (simp add: y_def w mult.assoc)
  have yy: "p dvd y * y" by (simp add: y_def w)
  define a where "a = 1 + y"
  have "p dvd a ^ nat c - 1 - int (nat c) * y"
    using square_dvd_binomial [of y "nat c"] yy unfolding a_def by (rule dvd_trans [rotated])
  then have "p dvd a ^ nat c - 1 - p" using c by (simp add: py)
  then have ac: "p dvd a ^ nat c - 1" by (metis dvd_diffD1 dvd_refl dvd_add_right_iff diff_add_cancel)
  have "a ^ nat c = a * a ^ (nat c - 1)" using c by (metis power_eq_if nat_0_iff not_less less_imp_le zero_less_one less_trans)
  then have "p dvd a * a ^ (nat c - 1) - 1" using ac by simp
  then have cop: "coprime a p"
    by (rule coprime_of_inverse)
  have f: "a ^ nat (p - 1) mod p = 1" using assms(1) cop by (simp add: fermat_pseudoprime_def)
  have "a ^ nat p = (a ^ nat c) ^ nat y"
    using c py by (metis power_mult nat_mult_distrib less_imp_le zero_le_one order_trans)
  then have "a ^ nat p mod p = (a ^ nat c mod p) ^ nat y mod p" by (simp add: power_mod)
  moreover have "a ^ nat c mod p = 1 mod p" using ac by (simp add: mod_eq_dvd_iff)
  ultimately have ap: "a ^ nat p mod p = 1 mod p" by (simp add: power_mod)
  have "nat p = Suc (nat (p - 1))" using p by simp
  then have "a ^ nat p mod p = a * a ^ nat (p - 1) mod p" by simp
  also have "\<dots> = a * (a ^ nat (p - 1) mod p) mod p" by (simp add: mod_mult_right_eq)
  also have "\<dots> = a mod p" using f by simp
  finally have "a mod p = 1 mod p" using ap by simp
  then have "p dvd y" unfolding a_def by (simp add: mod_eq_dvd_iff)
  moreover have "0 < y" "y < p" using c wpos by (simp_all add: y_def py)
  ultimately show False using zdvd_not_zless by blast
qed

lemma power_id_of_one:
  fixes x :: int
  assumes "x ^ n mod m = 1 mod m"
  shows "m dvd x ^ Suc (k * n) - x"
proof -
  have "x ^ (k * n) = (x ^ n) ^ k"
    by (subst mult.commute) (rule power_mult)
  also have "\<dots> mod m = (x ^ n mod m) ^ k mod m"
    by (simp only: power_mod)
  also have "\<dots> = 1 mod m"
    by (simp only: assms power_mod power_one)
  finally have "x ^ (k * n) mod m = 1 mod m" .
  then have "m dvd x ^ (k * n) - 1" by (simp add: mod_eq_dvd_iff)
  then have "m dvd x * (x ^ (k * n) - 1)" by (rule dvd_mult)
  then show ?thesis by (simp add: algebra_simps)
qed

lemma pseudoprime_power_id:
  assumes "fermat_pseudoprime p"
  shows "p dvd x ^ Suc (k * nat (p - 1)) - x"
proof -
  have p: "1 < p" using assms by (simp add: fermat_pseudoprime_def)
  define d where "d = gcd x p"
  have d0: "0 < d" using p by (simp add: d_def gcd_pos_int)
  obtain m where m: "p = d * m" unfolding d_def using gcd_dvd2 [of x p] by (auto simp: dvd_def)
  have "gcd d m * gcd d m dvd d * m" by (intro mult_dvd_mono) simp_all
  moreover have "0 < gcd d m" using d0 by (simp add: gcd_pos_int)
  ultimately have "gcd d m = 1" using pseudoprime_squarefree [OF assms] m by simp
  then have dm: "coprime d m" by (simp add: coprime_iff_gcd_eq_1)
  have xm: "coprime x m"
  proof (rule coprimeI)
    fix r assume r: "r dvd x" "r dvd m"
    then have "r dvd p" by (simp add: m)
    then have "r dvd d" using r(1) by (simp add: d_def)
    then show "is_unit r" using r(2) dm by (meson coprime_common_divisor)
  qed
  obtain u v where uv: "u * d + v * m = 1"
    using bezout_int [of d m] \<open>gcd d m = 1\<close> by auto
  define a where "a = x * (u * d) + v * m"
  have "a - x = m * (v * (1 - x))"
  proof -
    have "u * d = 1 - v * m" using uv by simp
    then have "a = x * (1 - v * m) + v * m" unfolding a_def by simp
    then show ?thesis by (simp add: algebra_simps)
  qed
  then have ax: "m dvd a - x" by simp
  have "a - 1 = d * (u * (x - 1))"
  proof -
    have "v * m = 1 - u * d" using uv by simp
    then have "a = x * (u * d) + (1 - u * d)" unfolding a_def by simp
    then show ?thesis by (simp add: algebra_simps)
  qed
  then have "d dvd a * 1 - 1" by simp
  then have ad: "coprime a d" by (rule coprime_of_inverse)
  have "a mod m = x mod m" using ax by (simp add: mod_eq_dvd_iff)
  then have am: "coprime a m" using xm by (metis coprime_mod_left_iff coprime_0_left_iff mod_by_0)
  have "coprime a p" using ad am by (simp add: m)
  then have "a ^ nat (p - 1) mod p = 1" using assms by (simp add: fermat_pseudoprime_def)
  then have "a ^ nat (p - 1) mod p = 1 mod p" using p by simp
  then have "p dvd a ^ nat (p - 1) - 1" by (simp only: mod_eq_dvd_iff)
  then have "m dvd a ^ nat (p - 1) - 1" using m by (metis dvd_mult_right)
  then have "a ^ nat (p - 1) mod m = 1 mod m" by (simp add: mod_eq_dvd_iff)
  moreover have "a ^ nat (p - 1) mod m = x ^ nat (p - 1) mod m"
    using \<open>a mod m = x mod m\<close> by (metis power_mod)
  ultimately have "x ^ nat (p - 1) mod m = 1 mod m" by simp
  then have "m dvd x ^ Suc (k * nat (p - 1)) - x" by (rule power_id_of_one)
  moreover have "d dvd x ^ Suc (k * nat (p - 1)) - x"
    by (simp add: d_def)
  ultimately show ?thesis using dm by (simp add: m divides_mult)
qed

lemma prime_pseudoprime: "is_prime p \<Longrightarrow> fermat_pseudoprime p"
  unfolding fermat_pseudoprime_def
proof (intro conjI allI impI)
  assume "is_prime p"
  then show "1 < p" by (simp add: is_prime_def)
next
  fix a assume p: "is_prime p" and c: "coprime a p"
  have p1: "1 < p" using p by (simp add: is_prime_def)
  have "is_unit p" if "p dvd a" using that c by (meson coprime_common_divisor dvd_refl)
  then have "\<not> p dvd a" using p1 by (auto simp: zdvd1_eq)
  then have "\<not> p dvd a mod p" by (simp add: dvd_mod_iff)
  then have "(a mod p) ^ nat (p - 1) mod p = 1"
    using p p1 by (intro fermat_little) simp_all
  then show "a ^ nat (p - 1) mod p = 1" by (simp add: power_mod)
qed

lemma rsa_identity_pseudoprime:
  assumes "fermat_pseudoprime p" "fermat_pseudoprime q" "coprime p q" "0 \<le> x" "x < p * q"
    and "0 \<le> m" "m mod ((p - 1) * (q - 1)) = 1"
  shows "x ^ nat m mod (p * q) = x"
proof -
  have pq: "1 < p" "1 < q" using assms by (simp_all add: fermat_pseudoprime_def)
  define phi where "phi = (p - 1) * (q - 1)"
  have phi: "0 < phi" using pq by (simp add: phi_def)
  define k where "k = nat (m div phi)"
  have "m = phi * (m div phi) + 1" using assms(7) unfolding phi_def [symmetric]
    by (metis mult_div_mod_eq)
  moreover have "0 \<le> m div phi" using assms(6) phi by (simp add: pos_imp_zdiv_nonneg_iff)
  ultimately have "nat m = nat (phi * (m div phi)) + nat 1"
    using phi by (metis nat_add_distrib mult_nonneg_nonneg less_imp_le zero_le_one)
  then have m: "nat m = Suc (k * nat phi)"
    using phi by (simp add: k_def nat_mult_distrib mult.commute)
  have np: "nat phi = nat (q - 1) * nat (p - 1)" "nat phi = nat (p - 1) * nat (q - 1)"
    using pq by (simp_all add: phi_def nat_mult_distrib mult.commute)
  have "p dvd x ^ nat m - x"
    using pseudoprime_power_id [OF assms(1), of x "k * nat (q - 1)"] by (simp add: m np(1) mult.assoc)
  moreover have "q dvd x ^ nat m - x"
    using pseudoprime_power_id [OF assms(2), of x "k * nat (p - 1)"] by (simp add: m np(2) mult.assoc)
  ultimately have "p * q dvd x ^ nat m - x" using assms(3) by (simp add: divides_mult)
  then have "x ^ nat m mod (p * q) = x mod (p * q)" by (simp add: mod_eq_dvd_iff)
  then show ?thesis using assms(4,5) by simp
qed

section \<open>The primality test and the generated keys\<close>

lemma modpow_returns_pos:
  assumes "modpow a b n = Some r"
  shows "int64 b \<longrightarrow> 1 \<le> b"
proof (rule modpow.raw_induct [where P = "\<lambda>a b n r. int64 b \<longrightarrow> 1 \<le> b", OF _ assms])
  fix f :: "int \<Rightarrow> int \<Rightarrow> int \<Rightarrow> (error + int) option" and a b n :: int and r
  assume ih: "\<And>a b n r. f a b n = Some r \<Longrightarrow> int64 b \<longrightarrow> 1 \<le> b"
    and eq: "(if b = 1 then Some (Inr a)
      else bindR (f a (go_div b 2) n)
            (\<lambda>r. Some
                  (bindE (mod_go r n)
                    (\<lambda>x. if go_rem b 2 = 0 then mod_go (wrap64 (x * x)) n
                         else bindE (mod_go (wrap64 (x * x)) n)
                               (\<lambda>y. mod_go (wrap64 (y * a)) n))))) = Some r"
  show "int64 b \<longrightarrow> 1 \<le> b"
  proof (cases "b = 1")
    case True
    then show ?thesis by simp
  next
    case False
    with eq obtain r' where "f a (go_div b 2) n = Some r'"
      by (auto simp: bindR_def split: bind_splits)
    then have "int64 (go_div b 2) \<longrightarrow> 1 \<le> go_div b 2" by (rule ih)
    then have "1 \<le> go_div b 2" by (simp add: go_div_def int64_wrap64)
    then show ?thesis
      by (auto simp: go_div_def wrap64_def int64_def sgn_if split: if_splits)
  qed
qed

lemma uint16_of_bytes_range: "0 \<le> uint16_of_bytes b0 b1 \<and> uint16_of_bytes b0 b1 < 65536"
  unfolding uint16_of_bytes_def
  using uint_lt2p [of "or (ucast b0) (push_bit 8 (ucast b1)) :: 16 word"] by simp

lemma uint16_of_bytes_low: "uint16_of_bytes 61 0 = 61"
  by (simp add: uint16_of_bytes_def)

lemma isPrime_0: "isPrime 0 = None"
proof -
  have "modpow 1 (- 1) 0 = None" using modpow_returns_pos [of 1 "- 1" 0] by (cases "modpow 1 (- 1) 0") (auto simp: int64_def)
  then show ?thesis
    unfolding isPrime_def by (subst isPrime_loop.simps) (simp add: mdc_eq wrap64_def)
qed

lemma isPrime_1: "isPrime 1 = None"
proof -
  have "modpow 1 0 1 = None" using modpow_returns_pos [of 1 0 1] by (cases "modpow 1 0 1") (auto simp: int64_def)
  then show ?thesis
    unfolding isPrime_def by (subst isPrime_loop.simps) (simp add: mdc_eq wrap64_def)
qed

lemma isPrime_2: "isPrime 2 = Some (Inr False)"
  unfolding isPrime_def by code_simp

lemma fermat_test_step:
  "a < 1000000 \<Longrightarrow> fermat_test a n \<longleftrightarrow>
     (coprime a n \<longrightarrow> a ^ nat (n - 1) mod n = 1) \<and> fermat_test (a + 1) n"
proof -
  assume "a < 1000000"
  then have "{a..<1000000} = insert a {a + 1..<1000000}" by auto
  then show ?thesis by (simp add: fermat_test_def)
qed

lemma isPrime_loop_eq:
  assumes "3 \<le> n" "n \<le> 3037000500" "1 \<le> a" "a \<le> 1000000"
  shows "isPrime_loop a n = Some (Inr (fermat_test a n))"
  using assms(3,4)
proof (induction "nat (1000000 - a)" arbitrary: a rule: less_induct)
  case less
  show ?case
  proof (cases "a < 1000000")
    case False
    then have "fermat_test a n" by (simp add: fermat_test_def)
    then show ?thesis using False by (subst isPrime_loop.simps) simp
  next
    case True
    have ih: "isPrime_loop (a + 1) n = Some (Inr (fermat_test (a + 1) n))"
      using less.hyps [of "a + 1"] less.prems True by simp
    have g: "mdc a n = Inr (gcd a n)" using assms(1) by (simp add: mdc_eq)
    have w: "wrap64 (n - 1) = n - 1" using assms(1,2) by (simp add: wrap64_id int64_def)
    have "\<bar>a\<bar> * n \<le> 1000000 * 3037000500"
      using less.prems assms(1,2) by (intro mult_mono) auto
    then have "\<bar>a\<bar> * n < 2 ^ 63" by simp
    then have mp: "modpow a (n - 1) n = Some (Inr (a ^ nat (n - 1) mod n))"
      using modpow_pow [of "n - 1" n a] assms(1,2) by simp
    show ?thesis
      using True ih
      by (subst isPrime_loop.simps)
         (simp add: g w mp fermat_test_step [OF True] coprime_iff_gcd_eq_1)
  qed
qed

lemma isPrime_eq:
  "3 \<le> n \<Longrightarrow> n \<le> 3037000500 \<Longrightarrow> isPrime n = Some (Inr (fermat_test 1 n))"
  by (simp add: isPrime_def isPrime_loop_eq)

lemma fermat_test_pseudoprime:
  assumes "3 \<le> n" "n \<le> 1000000"
  shows "fermat_test 1 n \<longleftrightarrow> fermat_pseudoprime n"
proof
  assume f: "fermat_test 1 n"
  show "fermat_pseudoprime n"
    unfolding fermat_pseudoprime_def
  proof (intro conjI allI impI)
    show "1 < n" using assms by simp
  next
    fix a :: int assume c: "coprime a n"
    define k where "k = a mod n"
    have k: "0 \<le> k" "k < n" using assms by (simp_all add: k_def)
    have ck: "coprime k n" using c assms by (simp add: k_def coprime_mod_left_iff)
    have "k \<noteq> 0" using ck assms by auto
    then have "k \<in> {1..<1000000}" using k assms by simp
    then have "k ^ nat (n - 1) mod n = 1" using f ck by (simp add: fermat_test_def)
    then show "a ^ nat (n - 1) mod n = 1" by (simp add: k_def power_mod)
  qed
next
  assume "fermat_pseudoprime n"
  then show "fermat_test 1 n" by (simp add: fermat_test_def fermat_pseudoprime_def)
qed

lemma fermat_pseudoprime_test: "fermat_pseudoprime n \<Longrightarrow> fermat_test a n"
  by (simp add: fermat_test_def fermat_pseudoprime_def)

lemma isPrime_prime:
  "is_prime n \<Longrightarrow> 3 \<le> n \<Longrightarrow> n \<le> 3037000500 \<Longrightarrow> isPrime n = Some (Inr True)"
  by (simp add: isPrime_eq fermat_pseudoprime_test prime_pseudoprime)

lemma isPrime_True_pseudoprime:
  assumes "isPrime p = Some (Inr True)" "0 \<le> p" "p \<le> 1000000"
  shows "3 \<le> p \<and> fermat_pseudoprime p"
proof -
  have "p \<noteq> 0" "p \<noteq> 1" "p \<noteq> 2" using assms(1) isPrime_0 isPrime_1 isPrime_2 by auto
  then have p: "3 \<le> p" using assms(2) by simp
  then have "fermat_test 1 p" using assms by (simp add: isPrime_eq)
  then show ?thesis using p assms(3) by (simp add: fermat_test_pseudoprime)
qed

lemma generateRandomPrime_result:
  "generateRandomPrime rs p rs' \<Longrightarrow> 3 \<le> p \<and> p \<le> 54772 \<and> fermat_pseudoprime p"
proof (induction rule: generateRandomPrime.induct)
  case (grp_return p b0 b1 rs)
  then show ?case
    using uint16_of_bytes_range [of b0 b1] isPrime_True_pseudoprime [of p] by simp
qed

lemma generateE_result:
  "generateE rs phi e rs' \<Longrightarrow> 0 \<le> e \<and> e \<le> 65535 \<and> mdc e phi = Inr 1"
proof (induction rule: generateE.induct)
  case (ge_return e b0 b1 phi rs)
  then show ?case using uint16_of_bytes_range [of b0 b1] by simp
qed

lemma genereateRSAKeys_from_facts:
  assumes "genereateRSAKeys_from rs p q (n, e, d) rs'"
  shows "3 \<le> p \<and> p \<le> 54772 \<and> fermat_pseudoprime p
       \<and> 3 \<le> q \<and> q \<le> 54772 \<and> fermat_pseudoprime q
       \<and> n = p * q \<and> 0 < e \<and> e \<le> 65535 \<and> gcd e ((p - 1) * (q - 1)) = 1
       \<and> 0 \<le> d \<and> d < (p - 1) * (q - 1) \<and> e * d mod ((p - 1) * (q - 1)) = 1"
proof -
  define phi where "phi = (p - 1) * (q - 1)"
  define phi' where "phi' = wrap64 (wrap64 (p - 1) * wrap64 (q - 1))"
  from assms obtain rs1 rs2 s t where
    gp: "generateRandomPrime rs p rs1" and gq: "generateRandomPrime rs1 q rs2"
    and ge: "generateE rs2 phi' e rs'" and ext: "mdcExtended e phi' = Some (s, t)"
    and n: "n = wrap64 (p * q)" and d: "d = (if s < 0 then wrap64 (s + phi') else s)"
    unfolding genereateRSAKeys_from_def phi'_def by auto
  have p: "3 \<le> p" "p \<le> 54772" "fermat_pseudoprime p"
    using generateRandomPrime_result [OF gp] by simp_all
  have q: "3 \<le> q" "q \<le> 54772" "fermat_pseudoprime q"
    using generateRandomPrime_result [OF gq] by simp_all
  have "p * q \<le> 54772 * 54772" using p q by (intro mult_mono) auto
  moreover have "0 \<le> p * q" using p q by simp
  ultimately have n': "n = p * q" unfolding n by (intro wrap64_id) (simp add: int64_def)
  have "2 * 2 \<le> (p - 1) * (q - 1)" using p q by (intro mult_mono) auto
  then have phi4: "4 \<le> phi" by (simp add: phi_def)
  have "(p - 1) * (q - 1) \<le> 54771 * 54771" using p q by (intro mult_mono) auto
  then have phib: "phi \<le> 2999862441" by (simp add: phi_def)
  have "wrap64 (p - 1) = p - 1" "wrap64 (q - 1) = q - 1"
    using p q by (simp_all add: wrap64_id int64_def)
  then have phi': "phi' = phi"
    using phi4 phib by (simp add: phi'_def phi_def [symmetric] wrap64_id int64_def)
  have e: "0 \<le> e" "e \<le> 65535" "mdc e phi = Inr 1"
    using generateE_result [OF ge] by (simp_all add: phi')
  have g: "gcd e phi = 1" using e(3) phi4 by (simp add: mdc_eq)
  have "e \<noteq> 0" using g phi4 by auto
  then have e0: "0 < e" using e(1) by simp
  obtain s' t' where st: "mdcExtended e phi = Some (s', t')" "e * s' + phi * t' = gcd e phi"
    "if phi = 0 then s' = 1 else \<bar>s'\<bar> \<le> phi"
    using mdcExtended_nonneg [of e phi] e phi4 phib by auto
  have s: "s' = s" "t' = t" using st(1) ext by (simp_all add: phi')
  have bez: "e * s + phi * t = 1" using st(2) g s by simp
  have sb: "\<bar>s\<bar> \<le> phi" using st(3) phi4 s by simp
  have "\<not> phi dvd s"
  proof
    assume "phi dvd s"
    then have "phi dvd e * s + phi * t" by simp
    then have "phi dvd 1" using bez by simp
    then show False using phi4 by (simp add: zdvd1_eq)
  qed
  then have "s \<noteq> phi" "s \<noteq> - phi" by auto
  then have sb': "- phi < s" "s < phi" using sb by auto
  have dd: "d = (if s < 0 then s + phi else s)"
    using sb' phi4 phib by (auto simp: d phi' wrap64_id int64_def)
  have "e * d mod phi = (e * s + phi * t) mod phi"
  proof -
    have "e * d mod phi = e * s mod phi" by (simp add: dd algebra_simps)
    then show ?thesis by simp
  qed
  then have "e * d mod phi = 1" using bez phi4 by simp
  then show ?thesis using p q n' e0 e g dd sb' by (simp add: phi_def)
qed

lemma modpow_uniform:
  assumes "1 \<le> b" "b < 2 ^ 63" "0 < n" "n \<le> 3037000500" "0 \<le> a" "a < n"
  shows "modpow a b n = Some (Inr (a ^ nat b mod n))"
proof -
  have "a * n \<le> 3037000499 * 3037000500" using assms by (intro mult_mono) auto
  then have "\<bar>a\<bar> * n < 2 ^ 63" using assms by simp
  then have "modpow a b n = Some (Inr (if b = 1 then a else a ^ nat b mod n))"
    using assms by (intro modpow_pow) auto
  then show ?thesis using assms by auto
qed

lemma rsa_roundtrip:
  assumes "fermat_pseudoprime p" "fermat_pseudoprime q" "coprime p q" "p * q \<le> 3037000500"
    and "0 < e" "e < 2 ^ 63" "0 \<le> d" "d < 2 ^ 63" "e * d mod ((p - 1) * (q - 1)) = 1"
    and "0 \<le> x" "x < p * q"
  shows "bindR (modpow x e (p * q)) (\<lambda>c. modpow c d (p * q)) = Some (Inr x)"
proof -
  define n where "n = p * q"
  have n: "0 < n" using assms(10,11) by (simp add: n_def)
  have "d \<noteq> 0" using assms(9) by auto
  then have d: "1 \<le> d" using assms(7) by simp
  define c where "c = x ^ nat e mod n"
  have c: "0 \<le> c" "c < n" using n by (simp_all add: c_def)
  have 1: "modpow x e n = Some (Inr c)"
    unfolding c_def using assms n by (intro modpow_uniform) (simp_all add: n_def)
  have 2: "modpow c d n = Some (Inr (c ^ nat d mod n))"
    using assms n c d by (intro modpow_uniform) (simp_all add: n_def)
  have "c ^ nat d mod n = (x ^ nat e) ^ nat d mod n" by (simp add: c_def power_mod)
  also have "\<dots> = x ^ nat (e * d) mod n"
    using assms(5,7) by (simp add: power_mult [symmetric] nat_mult_distrib)
  also have "\<dots> = x"
    unfolding n_def using assms by (intro rsa_identity_pseudoprime) simp_all
  finally show ?thesis using 1 2 by (simp add: n_def [symmetric])
qed

section \<open>Concrete runs\<close>

lemma is_prime_small: "is_prime 3" "is_prime 5" "is_prime 11" "is_prime 17" "is_prime 53" "is_prime 61"
  by code_simp+

lemma generateRandomPrime_prime:
  "is_prime p \<Longrightarrow> 3 \<le> p \<Longrightarrow> p \<le> 54772 \<Longrightarrow> uint16_of_bytes b0 b1 = p
     \<Longrightarrow> generateRandomPrime (b0 # b1 # rs) p rs"
  by (rule grp_return) (simp_all add: isPrime_prime)

lemma run_3233: "genereateRSAKeys_from [61, 0, 53, 0, 17, 0] 61 53 (3233, 17, 2753) []"
proof -
  have 1: "generateRandomPrime [61, 0, 53, 0, 17, 0] 61 [53, 0, 17, 0]"
    by (rule generateRandomPrime_prime) (simp_all add: is_prime_small uint16_of_bytes_def)
  have 2: "generateRandomPrime [53, 0, 17, 0] 53 [17, 0]"
    by (rule generateRandomPrime_prime) (simp_all add: is_prime_small uint16_of_bytes_def)
  have "mdc 17 3120 = Inr 1" by code_simp
  then have 3: "generateE [17, 0] 3120 17 []"
    by (intro ge_return) (simp_all add: uint16_of_bytes_def)
  have 4: "mdcExtended 17 3120 = Some (- 367, 2)" by code_simp
  show ?thesis
    unfolding genereateRSAKeys_from_def
    apply (rule exI [of _ "[53, 0, 17, 0]"], rule exI [of _ "[17, 0]"], rule exI [of _ 17])
    apply (rule exI [of _ "- 367"], rule exI [of _ 2])
    using 1 2 3 4 by (simp add: wrap64_def)
qed

lemma run_15: "genereateRSAKeys_from [3, 0, 5, 0, 9, 0] 3 5 (15, 9, 1) []"
proof -
  have 1: "generateRandomPrime [3, 0, 5, 0, 9, 0] 3 [5, 0, 9, 0]"
    by (rule generateRandomPrime_prime) (simp_all add: is_prime_small uint16_of_bytes_def)
  have 2: "generateRandomPrime [5, 0, 9, 0] 5 [9, 0]"
    by (rule generateRandomPrime_prime) (simp_all add: is_prime_small uint16_of_bytes_def)
  have "mdc 9 8 = Inr 1" by code_simp
  then have 3: "generateE [9, 0] 8 9 []"
    by (intro ge_return) (simp_all add: uint16_of_bytes_def)
  have 4: "mdcExtended 9 8 = Some (1, - 1)" by code_simp
  show ?thesis
    unfolding genereateRSAKeys_from_def
    apply (rule exI [of _ "[5, 0, 9, 0]"], rule exI [of _ "[9, 0]"], rule exI [of _ 9])
    apply (rule exI [of _ 1], rule exI [of _ "- 1"])
    using 1 2 3 4 by (simp add: wrap64_def)
qed

lemma run_9: "genereateRSAKeys_from [3, 0, 3, 0, 3, 0] 3 3 (9, 3, 3) []"
proof -
  have 1: "generateRandomPrime [3, 0, 3, 0, 3, 0] 3 [3, 0, 3, 0]"
    by (rule generateRandomPrime_prime) (simp_all add: is_prime_small uint16_of_bytes_def)
  have 2: "generateRandomPrime [3, 0, 3, 0] 3 [3, 0]"
    by (rule generateRandomPrime_prime) (simp_all add: is_prime_small uint16_of_bytes_def)
  have "mdc 3 4 = Inr 1" by code_simp
  then have 3: "generateE [3, 0] 4 3 []"
    by (intro ge_return) (simp_all add: uint16_of_bytes_def)
  have 4: "mdcExtended 3 4 = Some (- 1, 1)" by code_simp
  show ?thesis
    unfolding genereateRSAKeys_from_def
    apply (rule exI [of _ "[3, 0, 3, 0]"], rule exI [of _ "[3, 0]"], rule exI [of _ 3])
    apply (rule exI [of _ "- 1"], rule exI [of _ 1])
    using 1 2 3 4 by (simp add: wrap64_def)
qed

lemma pseudoprime_561: "fermat_pseudoprime 561"
  unfolding fermat_pseudoprime_def
proof (intro conjI allI impI)
  show "(1::int) < 561" by simp
next
  fix a :: int assume "coprime a 561"
  moreover have "(561::int) = 3 * (11 * 17)" by simp
  ultimately have "coprime a (3 * (11 * 17))" by (simp only:)
  then have c: "coprime a 3" "coprime a 11" "coprime a 17"
    by (simp_all only: coprime_mult_right_iff)
  have f: "a ^ nat (3 - 1) mod 3 = 1" "a ^ nat (11 - 1) mod 11 = 1" "a ^ nat (17 - 1) mod 17 = 1"
    using c prime_pseudoprime [OF is_prime_small(1)] prime_pseudoprime [OF is_prime_small(3)]
      prime_pseudoprime [OF is_prime_small(4)]
    by (simp_all add: fermat_pseudoprime_def)
  have e: "a ^ Suc 560 - a = a * (a ^ 560 - 1)"
    unfolding power_Suc right_diff_distrib by simp
  have "3 dvd a ^ Suc (280 * nat (3 - 1)) - a"
    using f(1) by (intro power_id_of_one) simp
  then have 1: "3 dvd a * (a ^ 560 - 1)" unfolding e [symmetric] by simp
  have "11 dvd a ^ Suc (56 * nat (11 - 1)) - a"
    using f(2) by (intro power_id_of_one) simp
  then have 2: "11 dvd a * (a ^ 560 - 1)" unfolding e [symmetric] by simp
  have "17 dvd a ^ Suc (35 * nat (17 - 1)) - a"
    using f(3) by (intro power_id_of_one) simp
  then have 3: "17 dvd a * (a ^ 560 - 1)" unfolding e [symmetric] by simp
  have d: "3 dvd a ^ 560 - 1" "11 dvd a ^ 560 - 1" "17 dvd a ^ 560 - 1"
    using 1 2 3 c by (simp_all add: coprime_dvd_mult_right_iff coprime_commute)
  have c1: "coprime (3::int) 11"
    using is_prime_coprime [OF is_prime_small(1), of 11] by simp
  have h33: "3 * 11 dvd a ^ 560 - 1" using d(1,2) c1 by (rule divides_mult)
  have "coprime (17::int) (3 * 11)"
    using is_prime_coprime [OF is_prime_small(4), of 3] is_prime_coprime [OF is_prime_small(4), of 11]
    by (simp only: coprime_mult_right_iff) simp
  then have c2: "coprime (3 * 11 :: int) 17" by (simp only: coprime_commute)
  have "3 * 11 * 17 dvd a ^ 560 - 1" using h33 d(3) c2 by (rule divides_mult)
  then have "561 dvd a ^ 560 - 1" by simp
  then have "a ^ 560 mod 561 = 1 mod 561" by (simp only: mod_eq_dvd_iff)
  then show "a ^ nat (561 - 1) mod 561 = 1" by simp
qed

section \<open>Recovering the private exponent\<close>

lemma private_exponent:
  assumes "2 \<le> phi" "phi < 2 ^ 63" "0 \<le> e" "e < 2 ^ 63" "gcd e phi = 1"
  shows "\<exists>s t. mdcExtended e phi = Some (s, t)
           \<and> 0 \<le> (if s < 0 then wrap64 (s + phi) else s)
           \<and> (if s < 0 then wrap64 (s + phi) else s) < phi
           \<and> e * (if s < 0 then wrap64 (s + phi) else s) mod phi = 1"
proof -
  obtain s t where st: "mdcExtended e phi = Some (s, t)" "e * s + phi * t = gcd e phi"
    "if phi = 0 then s = 1 else \<bar>s\<bar> \<le> phi"
    using mdcExtended_nonneg [of e phi] assms by auto
  have bez: "e * s + phi * t = 1" using st(2) assms(5) by simp
  have sb: "\<bar>s\<bar> \<le> phi" using st(3) assms(1) by simp
  have "\<not> phi dvd s"
  proof
    assume "phi dvd s"
    then have "phi dvd e * s + phi * t" by simp
    then have "phi dvd 1" using bez by simp
    then show False using assms(1) by (simp add: zdvd1_eq)
  qed
  then have "s \<noteq> phi" "s \<noteq> - phi" by auto
  then have sb': "- phi < s" "s < phi" using sb by auto
  define d where "d = (if s < 0 then wrap64 (s + phi) else s)"
  have dd: "d = (if s < 0 then s + phi else s)"
    using sb' assms(1,2) by (auto simp: d_def wrap64_id int64_def)
  have "e * d mod phi = e * s mod phi" by (simp add: dd algebra_simps)
  also have "\<dots> = (e * s + phi * t) mod phi" by simp
  finally have "e * d mod phi = 1" using bez assms(1) by simp
  then have "0 \<le> d \<and> d < phi \<and> e * d mod phi = 1" using dd sb' by auto
  then show ?thesis using st(1) unfolding d_def by blast
qed

lemma prime_product_divisors:
  assumes "is_prime p" "is_prime q" "0 < i" "i dvd p * q"
  shows "i = 1 \<or> i = p \<or> i = q \<or> i = p * q"
proof (cases "p dvd i")
  case True
  then obtain k where k: "i = p * k" by (auto simp: dvd_def)
  have p: "0 < p" using assms(1) by (simp add: is_prime_def)
  then have "0 < k" using assms(3) k by (simp add: zero_less_mult_iff)
  moreover have "k dvd q" using assms(4) k p by simp
  ultimately have "k = 1 \<or> k = q" using is_prime_dvd [OF assms(2), of k] by simp
  then show ?thesis using k by auto
next
  case False
  then have "coprime i p" using is_prime_coprime [OF assms(1)] by (simp add: coprime_commute)
  then have "i dvd q" using assms(4) by (simp add: coprime_dvd_mult_right_iff)
  then have "i = 1 \<or> i = q" using is_prime_dvd [OF assms(2), of i] assms(3) by simp
  then show ?thesis by auto
qed

lemma findDivisor_prime_product:
  assumes "is_prime m" "is_prime M" "m < M" "M * m < 2 ^ 63" "M \<le> i" "i < M * m"
  shows "findDivisor (M * m) i = (M, m)"
  using assms(5,6)
proof (induction "nat (i - M)" arbitrary: i rule: less_induct)
  case less
  have m: "2 \<le> m" using assms(1) by (simp add: is_prime_def)
  have i: "2 \<le> i" "0 < i" using less.prems assms(3) m by simp_all
  have n0: "0 \<le> M * m" using less.prems i by simp
  have rem: "go_rem (M * m) i = M * m mod i" using n0 i by (simp add: go_rem_nonneg)
  show ?case
  proof (cases "i = M")
    case True
    have "go_div (M * m) M = M * m div M" using n0 assms(4) i True by (intro go_div_nonneg) simp_all
    then show ?thesis using True i rem by (subst findDivisor.simps) simp
  next
    case False
    have "\<not> i dvd M * m"
    proof
      assume "i dvd M * m"
      then have "i = 1 \<or> i = M \<or> i = m \<or> i = M * m"
        using prime_product_divisors [OF assms(2,1) i(2)] by simp
      then show False using False less.prems assms(3) i by auto
    qed
    then have "M * m mod i \<noteq> 0" by (simp add: dvd_eq_mod_eq_0)
    moreover have "findDivisor (M * m) (i - 1) = (M, m)"
      using less.hyps [of "i - 1"] less.prems False by simp
    ultimately show ?thesis using i rem by (subst findDivisor.simps) simp
  qed
qed

lemma findPrivateKey_ordered:
  assumes "is_prime m" "is_prime M" "m < M" "M * m < 2 ^ 63" "0 \<le> e" "e < 2 ^ 63"
    "gcd e ((M - 1) * (m - 1)) = 1"
  shows "\<exists>d. findPrivateKey (M * m) e = Some d \<and> 0 \<le> d \<and> d < (M - 1) * (m - 1)
           \<and> e * d mod ((M - 1) * (m - 1)) = 1"
proof -
  have m: "2 \<le> m" "3 \<le> M" using assms(1,3) by (simp_all add: is_prime_def)
  have "M * 2 \<le> M * m" using m by (intro mult_left_mono) auto
  then have n: "M < M * m - 1" using m by linarith
  have w: "wrap64 (M * m - 1) = M * m - 1" using assms(4) n m by (simp add: wrap64_id int64_def)
  have fd: "findDivisor (M * m) (wrap64 (M * m - 1)) = (M, m)"
    unfolding w using n by (intro findDivisor_prime_product assms) simp_all
  define phi where "phi = (M - 1) * (m - 1)"
  have "2 * 1 \<le> (M - 1) * (m - 1)" using m by (intro mult_mono) auto
  then have phi2: "2 \<le> phi" by (simp add: phi_def)
  have "(M - 1) * (m - 1) \<le> M * m" using m by (intro mult_mono) auto
  then have phib: "phi < 2 ^ 63" using assms(4) by (simp add: phi_def)
  have M2: "M \<le> M * m" using m by (simp add: mult_le_cancel_left1)
  have m2: "m \<le> M * m" using m by (simp add: mult_le_cancel_right1)
  have n63: "M * m < 9223372036854775808" using assms(4) by simp
  have "M < 9223372036854775808" "m < 9223372036854775808"
    using M2 m2 n63 by linarith+
  then have "int64 (M - 1)" "int64 (m - 1)"
    unfolding int64_iff using m by linarith+
  then have "wrap64 (M - 1) = M - 1" "wrap64 (m - 1) = m - 1"
    by (simp_all add: wrap64_id)
  then have wphi: "wrap64 (wrap64 (M - 1) * wrap64 (m - 1)) = phi"
    using phi2 phib by (simp add: phi_def [symmetric] wrap64_id int64_def)
  obtain s t where st: "mdcExtended e phi = Some (s, t)"
    "0 \<le> (if s < 0 then wrap64 (s + phi) else s)"
    "(if s < 0 then wrap64 (s + phi) else s) < phi"
    "e * (if s < 0 then wrap64 (s + phi) else s) mod phi = 1"
    using private_exponent [OF phi2 phib assms(5,6)] assms(7) unfolding phi_def by blast
  have "findPrivateKey (M * m) e = Some (if s < 0 then wrap64 (s + phi) else s)"
    by (simp add: findPrivateKey_def fd wphi st(1))
  then show ?thesis using st unfolding phi_def by blast
qed

lemma findPrivateKey_prime_product:
  assumes "is_prime p" "is_prime q" "p \<noteq> q" "p * q < 2 ^ 63" "0 \<le> e" "e < 2 ^ 63"
    "gcd e ((p - 1) * (q - 1)) = 1"
  shows "\<exists>d. findPrivateKey (p * q) e = Some d \<and> 0 \<le> d \<and> d < (p - 1) * (q - 1)
           \<and> e * d mod ((p - 1) * (q - 1)) = 1"
proof (cases "p < q")
  case True
  then show ?thesis
    using findPrivateKey_ordered [of p q e] assms by (simp add: mult.commute)
next
  case False
  then have "q < p" using assms(3) by simp
  then show ?thesis
    using findPrivateKey_ordered [of q p e] assms by (simp add: mult.commute)
qed

lemma distinct_primes_coprime:
  assumes "is_prime p" "is_prime q" "p \<noteq> q"
  shows "coprime p q"
proof -
  have "0 \<le> p" "p \<noteq> 1" using assms(1) by (simp_all add: is_prime_def)
  then have "\<not> p dvd q" using is_prime_dvd [OF assms(2), of p] assms(3) by auto
  then show ?thesis by (rule is_prime_coprime [OF assms(1)])
qed

lemma findPrivateKey_3233: "findPrivateKey 3233 17 = Some 2753"
  by code_simp

section \<open>Splitting into blocks\<close>

lemma readBlock_eq:
  "readBlock msg i k =
     (if k = 0 \<or> i + k \<le> length msg then Inr (take k (drop i msg)) else Inl WrongBlockLength)"
proof (induction k)
  case 0
  show ?case by (simp add: readBlock_def)
next
  case (Suc k)
  have step: "readBlock msg i (Suc k) =
      bindE (readBlock msg i k) (\<lambda>b.
        if i + k \<ge> length msg then Inl WrongBlockLength else Inr (b @ [msg ! (i + k)]))"
    by (simp add: readBlock_def)
  show ?case
  proof (cases "i + Suc k \<le> length msg")
    case True
    then have "take (Suc k) (drop i msg) = take k (drop i msg) @ [msg ! (i + k)]"
      by (simp add: take_Suc_conv_app_nth)
    then show ?thesis using True by (simp add: step Suc)
  next
    case False
    then show ?thesis by (auto simp: step Suc)
  qed
qed

lemma chunks_Nil [simp]: "chunks k [] = []"
  by (simp add: chunks.simps)

lemma splitBlocks_eq:
  assumes "0 < cb" "i \<le> length msg"
  shows "splitBlocks msg cb i acc =
     Some (if cb dvd (length msg - i) then Inr (acc @ chunks cb (drop i msg))
           else Inl WrongBlockLength)"
  using assms(2)
proof (induction "length msg - i" arbitrary: i acc rule: less_induct)
  case less
  show ?case
  proof (cases "i < length msg")
    case False
    then show ?thesis using less.prems by (subst splitBlocks.simps) simp
  next
    case True
    show ?thesis
    proof (cases "i + cb \<le> length msg")
      case short: False
      then have "0 < length msg - i" "length msg - i < cb" using True by simp_all
      then have "\<not> cb dvd (length msg - i)" by (auto dest: dvd_imp_le)
      then show ?thesis using True short assms(1)
        by (subst splitBlocks.simps) (simp add: readBlock_eq)
    next
      case fits: True
      have d: "cb dvd (length msg - (i + cb)) \<longleftrightarrow> cb dvd (length msg - i)"
      proof -
        have "length msg - i = (length msg - (i + cb)) + cb" using fits by simp
        then show ?thesis by (metis dvd_add_triv_right_iff)
      qed
      have c: "chunks cb (drop i msg) = take cb (drop i msg) # chunks cb (drop (i + cb) msg)"
        using True assms(1) by (subst chunks.simps) (simp add: add.commute)
      have ih: "splitBlocks msg cb (i + cb) (acc @ [take cb (drop i msg)]) =
          Some (if cb dvd (length msg - (i + cb))
                then Inr ((acc @ [take cb (drop i msg)]) @ chunks cb (drop (i + cb) msg))
                else Inl WrongBlockLength)"
        using less.hyps [of "i + cb"] fits True assms(1) by simp
      show ?thesis using True fits
        by (subst splitBlocks.simps) (simp add: readBlock_eq ih d c)
    qed
  qed
qed

section \<open>Which errors the later phases can raise\<close>

lemma mod_go_error: "mod_go a b = Inl e \<Longrightarrow> e = DivideByZero"
  by (auto simp: mod_go_def Let_def split: if_splits)

lemma modpow_error:
  assumes "modpow a b n = Some r"
  shows "r \<noteq> Inl WrongBlockLength"
proof (rule modpow.raw_induct [where P = "\<lambda>a b n r. r \<noteq> Inl WrongBlockLength", OF _ assms])
  fix f :: "int \<Rightarrow> int \<Rightarrow> int \<Rightarrow> (error + int) option" and a b n :: int and r
  assume ih: "\<And>a b n r. f a b n = Some r \<Longrightarrow> r \<noteq> Inl WrongBlockLength"
    and eq: "(if b = 1 then Some (Inr a)
      else bindR (f a (go_div b 2) n)
            (\<lambda>r. Some
                  (bindE (mod_go r n)
                    (\<lambda>x. if go_rem b 2 = 0 then mod_go (wrap64 (x * x)) n
                         else bindE (mod_go (wrap64 (x * x)) n)
                               (\<lambda>y. mod_go (wrap64 (y * a)) n))))) = Some r"
  show "r \<noteq> Inl WrongBlockLength"
  proof (cases "b = 1")
    case True
    then show ?thesis using eq by auto
  next
    case False
    then obtain r' where r': "f a (go_div b 2) n = Some r'"
      using eq by (auto simp: bindR_def split: bind_splits)
    show ?thesis
    proof (cases r')
      case (Inl e')
      then show ?thesis using eq False r' ih [OF r'] by auto
    next
      case (Inr v)
      then show ?thesis using eq False r'
        by (auto simp: bindE_def split: sum.splits if_splits dest: mod_go_error)
    qed
  qed
qed

lemma decodeBlocks_error: "decodeBlocks n d k bs \<noteq> Some (Inl WrongBlockLength)"
proof (induction bs)
  case Nil
  show ?case by simp
next
  case (Cons b bs)
  show ?case
  proof (cases "modpow (Atoi b) d n")
    case None
    then show ?thesis by simp
  next
    case (Some r)
    then have "r \<noteq> Inl WrongBlockLength" by (rule modpow_error)
    then show ?thesis using Some Cons
      by (cases r; cases "decodeBlocks n d k bs")
         (auto simp: bindR_def split: sum.splits)
  qed
qed

lemma blockLetters_error: "blockLetters b i ret \<noteq> Inl WrongBlockLength"
proof (induction b i ret rule: blockLetters.induct)
  case (1 b i ret)
  then show ?case by (subst blockLetters.simps) (auto simp: Let_def)
qed

lemma blocksText_error: "blocksText bs ret \<noteq> Inl WrongBlockLength"
proof (induction bs arbitrary: ret)
  case Nil
  show ?case by simp
next
  case (Cons b bs)
  then show ?case using blockLetters_error [of b 0 ret]
    by (cases "blockLetters b 0 ret") auto
qed

lemma digits_of_nonempty: "digits_of n \<noteq> []"
  by (subst digits_of.simps) simp

lemma countDigits_pos: "0 < countDigits n"
  by (simp add: countDigits_def Sprintf_d_def digits_of_nonempty)

lemma decodeMessage_split:
  "decodeMessage n d msg =
     (if countDigits n dvd length (filter (\<lambda>c. c \<noteq> CHR '' '') msg)
      then bindR (map_option Inr (blockSize n)) (\<lambda>bSize.
             bindR (decodeBlocks n d bSize (chunks (countDigits n) (filter (\<lambda>c. c \<noteq> CHR '' '') msg)))
               (\<lambda>blocks. Some (blocksText blocks [])))
      else Some (Inl WrongBlockLength))"
  by (simp add: decodeMessage_def Let_def splitBlocks_eq [OF countDigits_pos])

section \<open>Digits\<close>

lemma digit_val_char [simp]: "0 \<le> d \<Longrightarrow> d < 10 \<Longrightarrow> digit_val (digit_char d) = d"
  by (simp add: digit_val_def digit_char_def take_bit_eq_mod)

lemma is_digit_char [simp]: "0 \<le> d \<Longrightarrow> d < 10 \<Longrightarrow> is_digit (digit_char d)"
  by (simp add: is_digit_def digit_char_def take_bit_eq_mod)

lemma digit_char_not_sign [simp]:
  "0 \<le> d \<Longrightarrow> d < 10 \<Longrightarrow> digit_char d \<noteq> CHR ''-'' \<and> digit_char d \<noteq> CHR ''+'' \<and> digit_char d \<noteq> CHR '' ''"
proof -
  assume d: "0 \<le> d" "d < 10"
  have "(of_char (digit_char d) :: int) = 48 + d"
    using d by (simp add: digit_char_def take_bit_eq_mod)
  then show ?thesis using d by auto
qed

lemma digit_char_0: "digit_char 0 = CHR ''0''"
  by code_simp

lemma digits_value_append [simp]:
  "digits_value (s @ [c]) = digits_value s * 10 + digit_val c"
  by (simp add: digits_value_def)

lemma digits_value_Nil [simp]: "digits_value [] = 0"
  by (simp add: digits_value_def)

lemma digits_value_single [simp]: "digits_value [c] = digit_val c"
  by (simp add: digits_value_def)

lemma digits_value_zeros [simp]: "digits_value (replicate k CHR ''0'' @ s) = digits_value s"
proof -
  have "foldl (\<lambda>v c. v * 10 + digit_val c) 0 (replicate k CHR ''0'') = 0"
    by (induction k) (simp_all add: digit_val_def)
  then show ?thesis by (simp add: digits_value_def)
qed

lemma digits_value_nonneg: "list_all is_digit s \<Longrightarrow> 0 \<le> digits_value s"
  by (induction s rule: rev_induct) (auto simp: is_digit_def digit_val_def)

lemma digits_of_props:
  "0 \<le> n \<Longrightarrow> list_all is_digit (digits_of n) \<and> digits_value (digits_of n) = n"
proof (induction n rule: digits_of.induct)
  case (1 n)
  show ?case
  proof (cases "n < 10")
    case True
    then show ?thesis using 1(2) by (subst (1 2) digits_of.simps) simp
  next
    case False
    then have "list_all is_digit (digits_of (n div 10)) \<and> digits_value (digits_of (n div 10)) = n div 10"
      using 1 by simp
    then show ?thesis using False by (subst (1 2) digits_of.simps) simp
  qed
qed

text \<open>A two-digit letter code.\<close>

lemma Sprintf_02d:
  assumes "0 \<le> i" "i < 100"
  shows "Sprintf_0wd 2 i = [digit_char (i div 10), digit_char (i mod 10)]"
proof (cases "i < 10")
  case True
  then show ?thesis using assms
    by (simp add: Sprintf_0wd_def pad0_def digits_of.simps [of i] digit_char_0)
next
  case False
  then have "i div 10 < 10" using assms by simp
  then show ?thesis using assms False
    by (simp add: Sprintf_0wd_def pad0_def digits_of.simps [of i] digits_of.simps [of "i div 10"])
qed

lemma block_of_snoc:
  "0 \<le> i \<Longrightarrow> i < 100 \<Longrightarrow> block_of (idxs @ [i]) = block_of idxs @ [digit_char (i div 10), digit_char (i mod 10)]"
  by (simp add: block_of_def Sprintf_02d)

lemma block_of_props:
  "list_all (\<lambda>i. 0 \<le> i \<and> i < 100) idxs \<Longrightarrow>
     length (block_of idxs) = 2 * length idxs \<and> list_all is_digit (block_of idxs)
     \<and> digits_value (block_of idxs) = pairs_value idxs"
proof (induction idxs rule: rev_induct)
  case Nil
  show ?case by (simp add: block_of_def pairs_value_def)
next
  case (snoc i idxs)
  then have i: "0 \<le> i" "i < 100" by simp_all
  have d: "0 \<le> i div 10" "i div 10 < 10" "0 \<le> i mod 10" "i mod 10 < 10" using i by simp_all
  have "digits_value (block_of idxs @ [digit_char (i div 10), digit_char (i mod 10)])
      = (digits_value (block_of idxs) * 10 + i div 10) * 10 + i mod 10"
    using d digits_value_append [of "block_of idxs @ [digit_char (i div 10)]" "digit_char (i mod 10)"]
    by simp
  also have "\<dots> = digits_value (block_of idxs) * 100 + i" by simp
  finally show ?case using snoc i d by (simp add: block_of_snoc pairs_value_def)
qed

lemma pairs_value_snoc [simp]: "pairs_value (idxs @ [i]) = pairs_value idxs * 100 + i"
  by (simp add: pairs_value_def)

lemma pairs_value_bound:
  "letter_codes idxs \<Longrightarrow> 0 \<le> pairs_value idxs \<and> pairs_value idxs \<le> all25 (length idxs)
     \<and> (pairs_value idxs = all25 (length idxs) \<longrightarrow> idxs = replicate (length idxs) 25)"
proof (induction idxs rule: rev_induct)
  case Nil
  show ?case by (simp add: pairs_value_def)
next
  case (snoc i idxs)
  then have ih: "0 \<le> pairs_value idxs" "pairs_value idxs \<le> all25 (length idxs)"
    "pairs_value idxs = all25 (length idxs) \<longrightarrow> idxs = replicate (length idxs) 25"
    and i: "0 \<le> i" "i \<le> 25"
    by (simp_all add: letter_codes_def)
  have eq: "idxs @ [i] = replicate (length (idxs @ [i])) 25"
    if "pairs_value (idxs @ [i]) = all25 (length (idxs @ [i]))"
  proof -
    from that have "pairs_value idxs * 100 + i = all25 (length idxs) * 100 + 25" by simp
    moreover have "P = A \<and> j = 25"
      if "P * 100 + j = A * 100 + 25" "P \<le> A" "0 \<le> j" "j \<le> 25" for P A j :: int
      using that by arith
    ultimately have "pairs_value idxs = all25 (length idxs)" "i = 25" using ih(2) i by blast+
    then have "idxs @ [i] = replicate (length idxs) 25 @ [25]" using ih(3) by simp
    then show ?thesis by (simp add: replicate_append_same)
  qed
  have "0 \<le> pairs_value (idxs @ [i])" "pairs_value (idxs @ [i]) \<le> all25 (length (idxs @ [i]))"
    using ih i by simp_all
  then show ?case using eq by blast
qed

lemma all25_replicate: "pairs_value (replicate j 25) = all25 j"
proof (induction j)
  case 0
  show ?case by (simp add: pairs_value_def)
next
  case (Suc j)
  have "replicate (Suc j) (25::int) = replicate j 25 @ [25]"
    by (simp add: replicate_append_same)
  then show ?case using Suc by (simp only: pairs_value_snoc all25.simps)
qed

lemma all25_25: "25 dvd all25 j"
  by (induction j) simp_all

lemma all25_mono: "j \<le> k \<Longrightarrow> all25 j \<le> all25 k"
proof (induction k)
  case 0
  then show ?case by simp
next
  case (Suc k)
  have "0 \<le> all25 k" by (induction k) simp_all
  then show ?case using Suc by (cases "j = Suc k") auto
qed

lemma all25_9: "all25 9 = 252525252525252525"
  by (simp add: eval_nat_numeral)

section \<open>Reading numbers\<close>

lemma Atoi_digits:
  assumes "s \<noteq> []" "list_all is_digit s" "digits_value s < 2 ^ 63"
  shows "Atoi s = digits_value s"
proof -
  have "is_digit (hd s)" using assms(1,2) by (cases s) simp_all
  then have "hd s \<noteq> CHR ''-''" "hd s \<noteq> CHR ''+''" by (auto simp: is_digit_def)
  then show ?thesis using assms by (simp add: Atoi_def Let_def)
qed

lemma Atoi_le: "Atoi s \<le> 2 ^ 63 - 1"
  using digits_value_nonneg [of "tl s"] by (auto simp: Atoi_def Let_def)

lemma Atoi_block:
  assumes "letter_codes idxs" "idxs \<noteq> []" "length idxs \<le> 9"
  shows "Atoi (block_of idxs) = pairs_value idxs"
proof -
  have l: "list_all (\<lambda>i. 0 \<le> i \<and> i < 100) idxs"
    using assms(1) by (auto simp: letter_codes_def list_all_iff)
  note p = block_of_props [OF l]
  have "pairs_value idxs \<le> all25 9"
    using pairs_value_bound [OF assms(1)] all25_mono [OF assms(3)] by simp
  then have "digits_value (block_of idxs) < 2 ^ 63" using p by (simp add: all25_9)
  moreover have "block_of idxs \<noteq> []" using p assms(2) by auto
  ultimately show ?thesis using p by (simp add: Atoi_digits)
qed

section \<open>The block size\<close>

lemma Sprintf_02d_25: "Sprintf_0wd 2 25 = ''25''"
  by code_simp

lemma block_of_replicate_25: "block_of (replicate j 25) = concat (replicate j ''25'')"
  by (simp add: block_of_def Sprintf_02d_25 map_replicate_const)

lemma block_of_Suc_25: "block_of (replicate j 25) @ ''25'' = block_of (replicate (Suc j) 25)"
proof -
  have "replicate (Suc j) (25::int) = replicate j 25 @ [25]"
    by (simp add: replicate_append_same)
  then show ?thesis by (simp add: block_of_def Sprintf_02d_25 del: replicate_Suc)
qed

lemma letter_codes_25: "letter_codes (replicate j 25)"
  by (simp add: letter_codes_def list_all_iff)

lemma Atoi_all25: "1 \<le> j \<Longrightarrow> j \<le> 9 \<Longrightarrow> Atoi (block_of (replicate j 25)) = all25 j"
  using Atoi_block [OF letter_codes_25, of j] by (auto simp: all25_replicate)

lemma Atoi_digits_sat:
  assumes "s \<noteq> []" "list_all is_digit s" "2 ^ 63 \<le> digits_value s"
  shows "Atoi s = 2 ^ 63 - 1"
proof -
  have "is_digit (hd s)" using assms(1,2) by (cases s) simp_all
  then have "hd s \<noteq> CHR ''-''" "hd s \<noteq> CHR ''+''" by (auto simp: is_digit_def)
  then show ?thesis using assms by (simp add: Atoi_def Let_def)
qed

lemma Atoi_all25_10: "Atoi (block_of (replicate 10 25)) = 2 ^ 63 - 1"
proof -
  have l: "list_all (\<lambda>i. 0 \<le> i \<and> i < 100) (replicate 10 (25::int))"
    by (simp add: list_all_iff)
  note p = block_of_props [OF l]
  have "all25 10 = 25252525252525252525" by (simp add: eval_nat_numeral)
  then have "2 ^ 63 \<le> digits_value (block_of (replicate 10 25))"
    using p by (simp add: all25_replicate)
  moreover have "block_of (replicate 10 25) \<noteq> []" using p by auto
  ultimately show ?thesis using p by (intro Atoi_digits_sat) simp_all
qed

lemma blockSize_loop_bound:
  assumes "blockSize_loop s n = Some k"
  shows "n < 2 ^ 63 - 1"
proof (rule blockSize_loop.raw_induct [where P = "\<lambda>s n k. n < 2 ^ 63 - 1", OF _ assms])
  fix f :: "string \<Rightarrow> int \<Rightarrow> nat option" and blockI n k
  assume ih: "\<And>s n k. f s n = Some k \<Longrightarrow> n < 2 ^ 63 - 1"
    and eq: "(let bi = Atoi (blockI @ ''25'')
      in if n < bi then Some (length blockI) else f (blockI @ ''25'') n) = Some k"
  show "n < 2 ^ 63 - 1"
  proof (cases "n < Atoi (blockI @ ''25'')")
    case True
    then show ?thesis using Atoi_le [of "blockI @ ''25''"] by simp
  next
    case False
    then show ?thesis using eq ih by (simp add: Let_def)
  qed
qed

lemma blockSize_loop_result:
  assumes "j \<le> 9" "blockSize_loop (block_of (replicate j 25)) n = Some k"
  shows "\<exists>j'. j \<le> j' \<and> j' \<le> 9 \<and> k = 2 * j' \<and> (j < j' \<longrightarrow> all25 j' \<le> n)"
  using assms
proof (induction "9 - j" arbitrary: j rule: less_induct)
  case less
  have l: "list_all (\<lambda>i. 0 \<le> i \<and> i < 100) (replicate j (25::int))"
    by (simp add: list_all_iff)
  have len: "length (block_of (replicate j 25)) = 2 * j"
    using block_of_props [OF l] by simp
  define bi where "bi = Atoi (block_of (replicate (Suc j) 25))"
  have step: "blockSize_loop (block_of (replicate j 25)) n =
      (if n < bi then Some (2 * j) else blockSize_loop (block_of (replicate (Suc j) 25)) n)"
    by (subst blockSize_loop.simps) (simp only: block_of_Suc_25 len Let_def bi_def)
  show ?case
  proof (cases "n < bi")
    case True
    then have "k = 2 * j" using less.prems step by simp
    then show ?thesis using less.prems(1) by (intro exI [of _ j]) simp
  next
    case False
    then have next_: "blockSize_loop (block_of (replicate (Suc j) 25)) n = Some k"
      using less.prems step by simp
    have nb: "n < 2 ^ 63 - 1" using next_ by (rule blockSize_loop_bound)
    have j9: "j \<noteq> 9"
    proof
      assume "j = 9"
      then have "bi = 2 ^ 63 - 1" by (simp add: bi_def Atoi_all25_10)
      then show False using False nb by simp
    qed
    then have j8: "Suc j \<le> 9" using less.prems(1) by simp
    have bi: "bi = all25 (Suc j)" unfolding bi_def using j8 by (intro Atoi_all25) simp_all
    obtain j' where j': "Suc j \<le> j'" "j' \<le> 9" "k = 2 * j'" "Suc j < j' \<longrightarrow> all25 j' \<le> n"
    proof -
      have "9 - Suc j < 9 - j" using j8 by simp
      from less.hyps [OF this j8 next_] show ?thesis using that by blast
    qed
    have "all25 j' \<le> n"
    proof (cases "Suc j < j'")
      case True
      then show ?thesis using j'(4) by simp
    next
      case eq: False
      then have "j' = Suc j" using j'(1) by simp
      then show ?thesis using bi False by simp
    qed
    then show ?thesis using j' by (intro exI [of _ j']) simp
  qed
qed

lemma blockSize_result:
  assumes "blockSize n = Some k"
  shows "\<exists>j. j \<le> 9 \<and> k = 2 * j \<and> (0 < j \<longrightarrow> all25 j \<le> n)"
proof -
  have "block_of (replicate 0 25) = []" by (simp add: block_of_def)
  then have "blockSize_loop (block_of (replicate 0 25)) n = Some k"
    using assms by (simp only: blockSize_def)
  from blockSize_loop_result [OF _ this]
  obtain j' where "j' \<le> 9" "k = 2 * j'" "0 < j' \<longrightarrow> all25 j' \<le> n" by blast
  then show ?thesis by blast
qed

lemma all25_ge_25: "0 < j \<Longrightarrow> 25 \<le> all25 j"
  using all25_mono [of 1 j] by simp

lemma blockSize_ge_25:
  assumes "blockSize n = Some k" "2 \<le> k"
  shows "25 \<le> n"
proof -
  obtain j where j: "k = 2 * j" "0 < j \<longrightarrow> all25 j \<le> n"
    using blockSize_result [OF assms(1)] by blast
  then have "0 < j" using assms(2) by simp
  then show ?thesis using j(2) all25_ge_25 [of j] by simp
qed

lemma blockSize_3233: "blockSize 3233 = Some 4"
  by code_simp

section \<open>Totality of the modular power\<close>

lemma modpow_total:
  assumes "1 \<le> b" "b < 2 ^ 63" "n \<noteq> 0"
  shows "\<exists>v. modpow a b n = Some (Inr v)"
  using assms(1,2)
proof (induction "nat b" arbitrary: b rule: less_induct)
  case less
  show ?case
  proof (cases "b = 1")
    case True
    then show ?thesis by (subst modpow.simps) simp
  next
    case False
    have c: "1 \<le> b div 2" "b div 2 < 2 ^ 63" "nat (b div 2) < nat b" "go_div b 2 = b div 2"
      using less.prems False by (auto simp: go_div_nonneg)
    obtain v where v: "modpow a (b div 2) n = Some (Inr v)"
      using less.hyps [of "b div 2"] c by auto
    show ?thesis
      using False v assms(3)
      by (subst modpow.simps) (simp add: c mod_go_eq)
  qed
qed

section \<open>Letter codes\<close>

lemma strings_Index_from_absent:
  "sub \<noteq> [] \<Longrightarrow> hd sub \<notin> set s \<Longrightarrow> strings_Index_from s sub i = - 1"
proof (induction s arbitrary: i)
  case Nil
  then show ?case by simp
next
  case (Cons c cs)
  then have "take (length sub) (c # cs) \<noteq> sub" by (cases sub) auto
  then show ?case using Cons by simp
qed

lemma alphabet_codes: "ch \<in> set alphabet \<Longrightarrow> 65 \<le> (of_char ch :: int) \<and> (of_char ch :: int) \<le> 90"
  by (auto simp: alphabet_def)

lemma string_of_rune_hd:
  assumes "c < 65 \<or> 90 < c"
  shows "string_of_rune c \<noteq> [] \<and> hd (string_of_rune c) \<notin> set alphabet"
proof -
  have ne: "string_of_rune c \<noteq> []" by (simp add: string_of_rune_def)
  have "(of_char (hd (string_of_rune c)) :: int) < 65 \<or> 90 < (of_char (hd (string_of_rune c)) :: int)"
  proof -
    consider (bad) "c < 0 \<or> (55296 \<le> c \<and> c \<le> 57343) \<or> 1114111 < c"
      | (a) "0 \<le> c" "c < 128"
      | (b) "128 \<le> c" "c < 2048"
      | (c) "2048 \<le> c" "c < 65536" "\<not> (55296 \<le> c \<and> c \<le> 57343)"
      | (d) "65536 \<le> c" "c \<le> 1114111"
      by linarith
    then show ?thesis
    proof cases
      case bad
      then show ?thesis by (simp add: string_of_rune_def)
    next
      case a
      then show ?thesis using assms by (simp add: string_of_rune_def take_bit_eq_mod)
    next
      case b
      then have "2 \<le> c div 64" "c div 64 < 32" by simp_all
      then show ?thesis using b by (simp add: string_of_rune_def take_bit_eq_mod)
    next
      case c
      then have "0 \<le> c div 4096" "c div 4096 < 16" by simp_all
      then show ?thesis using c by (simp add: string_of_rune_def take_bit_eq_mod)
    next
      case d
      then have "0 \<le> c div 262144" "c div 262144 < 5" by simp_all
      then show ?thesis using d by (simp add: string_of_rune_def take_bit_eq_mod)
    qed
  qed
  then show ?thesis using ne alphabet_codes [of "hd (string_of_rune c)"] by auto
qed

lemma letter_index_absent:
  "c < 65 \<or> 90 < c \<Longrightarrow> strings_Index alphabet (string_of_rune c) = - 1"
  unfolding strings_Index_def using string_of_rune_hd [of c]
  by (intro strings_Index_from_absent) simp_all

lemma letter_index_list:
  "list_all (\<lambda>c. strings_Index alphabet (string_of_rune c) = c - 65) [65..90]"
  by code_simp

lemma letter_index_present:
  assumes "65 \<le> c" "c \<le> 90"
  shows "strings_Index alphabet (string_of_rune c) = c - 65"
proof -
  have "c \<in> set [65..90]" using assms by (simp only: set_upto atLeastAtMost_iff)
  with letter_index_list show ?thesis unfolding list_all_iff by blast
qed

lemma Sprintf_02d_minus: "Sprintf_0wd 2 (- 1) = ''-1''"
  by code_simp

lemma letterDigits_eq:
  "letterDigits msg =
     map (\<lambda>c. if 65 \<le> c \<and> c \<le> 90 then Sprintf_0wd 2 (c - 65) else ''-1'') (runes msg)"
  unfolding letterDigits_def
  by (rule map_cong [OF refl])
     (auto simp: letter_index_present letter_index_absent Sprintf_02d_minus not_le)

lemma letterDigits_codes: "letterDigits msg = map (Sprintf_0wd 2) (rune_codes msg)"
  unfolding letterDigits_eq rune_codes_def map_map
  by (rule map_cong [OF refl]) (simp add: Sprintf_02d_minus)

section \<open>Messages over the alphabet\<close>

lemma runes_ascii:
  "\<forall>c \<in> set s. (of_char c :: int) < 128 \<Longrightarrow> runes s = map of_char s"
proof (induction s)
  case Nil
  show ?case by (simp add: runes.simps)
next
  case (Cons c s)
  then have "decodeRune (c # s) = (of_char c, 1)" by (simp add: decodeRune_def)
  then show ?case using Cons by (subst runes.simps) simp
qed

lemma letterDigits_alphabet:
  assumes "set msg \<subseteq> set alphabet"
  shows "letterDigits msg = map (Sprintf_0wd 2) (letter_idxs msg)"
proof -
  have a: "65 \<le> (of_char c :: int) \<and> (of_char c :: int) \<le> 90" if "c \<in> set msg" for c
    using that assms alphabet_codes by blast
  then have "runes msg = map of_char msg" by (intro runes_ascii) fastforce
  then show ?thesis using a by (simp add: letterDigits_eq letter_idxs_def)
qed

lemma letter_idxs_codes: "set msg \<subseteq> set alphabet \<Longrightarrow> letter_codes (letter_idxs msg)"
  using alphabet_codes by (fastforce simp: letter_codes_def letter_idxs_def list_all_iff)

section \<open>Building the blocks\<close>

lemma foldl_append_concat:
  "foldl (\<lambda>b j. b @ f j) acc js = acc @ concat (map f js)"
  by (induction js arbitrary: acc) simp_all

lemma Sprintf_02d_23: "Sprintf_0wd 2 23 = ''23''"
  by code_simp

lemma makeBlock_eq:
  assumes "i \<le> length idxs"
  shows "makeBlock (map (Sprintf_0wd 2) idxs) half i
           = block_of (take half (drop i idxs @ replicate half 23))"
proof -
  let ?ms = "map (Sprintf_0wd 2) idxs"
  let ?g = "\<lambda>j. if i + j < length idxs then idxs ! (i + j) else 23"
  have "makeBlock ?ms half i
      = foldl (\<lambda>b j. b @ (if i + j < length ?ms then ?ms ! (i + j) else ''23'')) [] [0..<half]"
    unfolding makeBlock_def
    by (rule arg_cong [where f = "\<lambda>f. foldl f [] [0..<half]"]) (intro ext, simp)
  also have "\<dots> = concat (map (\<lambda>j. if i + j < length ?ms then ?ms ! (i + j) else ''23'') [0..<half])"
    by (simp add: foldl_append_concat)
  also have "\<dots> = concat (map (\<lambda>j. Sprintf_0wd 2 (?g j)) [0..<half])"
    by (intro arg_cong [where f = concat] map_cong refl) (simp add: Sprintf_02d_23)
  also have "\<dots> = block_of (map ?g [0..<half])"
    by (simp add: block_of_def comp_def)
  also have "map ?g [0..<half] = take half (drop i idxs @ replicate half 23)"
    using assms by (intro nth_equalityI) (auto simp: nth_append)
  finally show ?thesis .
qed

lemma makeBlocks_eq:
  assumes "0 < half" "i \<le> length idxs"
  shows "makeBlocks (map (Sprintf_0wd 2) idxs) half i acc
           = Some (acc @ map block_of (pchunks half (drop i idxs)))"
  using assms(2)
proof (induction "length idxs - i" arbitrary: i acc rule: less_induct)
  case less
  show ?case
  proof (cases "i < length idxs")
    case False
    then show ?thesis using less.prems
      by (subst makeBlocks.simps) (simp add: pchunks.simps)
  next
    case True
    show ?thesis
    proof (cases "i + half \<le> length idxs")
      case fits: True
      have "makeBlocks (map (Sprintf_0wd 2) idxs) half (i + half)
              (acc @ [makeBlock (map (Sprintf_0wd 2) idxs) half i])
          = Some ((acc @ [makeBlock (map (Sprintf_0wd 2) idxs) half i])
                    @ map block_of (pchunks half (drop (i + half) idxs)))"
        using less.hyps [of "i + half"] fits True assms(1) by simp
      moreover have "pchunks half (drop i idxs)
          = take half (drop i idxs @ replicate half 23) # pchunks half (drop (i + half) idxs)"
        using True assms(1) by (subst pchunks.simps) (simp add: add.commute)
      ultimately show ?thesis using True less.prems
        by (subst makeBlocks.simps) (simp add: makeBlock_eq)
    next
      case short: False
      have "makeBlocks (map (Sprintf_0wd 2) idxs) half (i + half)
              (acc @ [makeBlock (map (Sprintf_0wd 2) idxs) half i])
          = Some (acc @ [makeBlock (map (Sprintf_0wd 2) idxs) half i])"
        using short by (subst makeBlocks.simps) simp
      moreover have "pchunks half (drop i idxs)
          = [take half (drop i idxs @ replicate half 23)]"
        using True short assms(1) by (subst pchunks.simps) (simp add: pchunks.simps)
      ultimately show ?thesis using True less.prems
        by (subst makeBlocks.simps) (simp add: makeBlock_eq)
    qed
  qed
qed

lemma pchunks_concat:
  "0 < half \<Longrightarrow>
     concat (pchunks half xs) = xs @ replicate ((half - length xs mod half) mod half) 23"
proof (induction half xs rule: pchunks.induct)
  case (1 half xs)
  show ?case
  proof (cases "xs = []")
    case True
    then show ?thesis by (simp add: pchunks.simps)
  next
    case False
    show ?thesis
    proof (cases "half \<le> length xs")
      case True
      have m: "length (drop half xs) mod half = length xs mod half"
        using True by (simp add: le_mod_geq)
      have "concat (pchunks half xs) = take half xs @ concat (pchunks half (drop half xs))"
        using False 1(2) True by (subst pchunks.simps) simp
      also have "\<dots> = take half xs @ drop half xs
                    @ replicate ((half - length (drop half xs) mod half) mod half) 23"
        using 1 False by simp
      finally show ?thesis unfolding m by simp
    next
      case short: False
      then have l: "length xs mod half = length xs" "0 < half - length xs" "half - length xs < half"
        using False by simp_all
      have "concat (pchunks half xs) = take half (xs @ replicate half 23)"
        using False 1(2) short by (subst pchunks.simps) (simp add: pchunks.simps)
      also have "\<dots> = xs @ replicate (half - length xs) 23" using short by simp
      finally show ?thesis using l by simp
    qed
  qed
qed

lemma pchunks_props:
  "0 < half \<Longrightarrow> letter_codes xs \<Longrightarrow> c \<in> set (pchunks half xs)
     \<Longrightarrow> length c = half \<and> letter_codes c"
proof (induction half xs rule: pchunks.induct)
  case (1 half xs)
  show ?case
  proof (cases "xs = []")
    case True
    then show ?thesis using 1(4) by (simp add: pchunks.simps)
  next
    case False
    have lc: "letter_codes (drop half xs)"
      using 1(3) by (auto simp: letter_codes_def list_all_iff dest: in_set_dropD)
    have hd: "length (take half (xs @ replicate half 23)) = half
        \<and> letter_codes (take half (xs @ replicate half 23))"
      using 1(3) by (auto simp: letter_codes_def list_all_iff dest!: in_set_takeD)
    from 1(4) have "c = take half (xs @ replicate half 23) \<or> c \<in> set (pchunks half (drop half xs))"
      using False 1(2) by (subst (asm) pchunks.simps) simp
    then show ?thesis using hd 1(1) [OF _ 1(2) lc] False 1(2) by auto
  qed
qed

section \<open>Joining and splitting the encoded blocks\<close>

lemma join_eq: "foldl (\<lambda>r cb. r @ cb @ '' '') acc cbs = acc @ concat (map (\<lambda>cb. cb @ '' '') cbs)"
  by (induction cbs arbitrary: acc) simp_all

lemma strip_joined:
  "\<forall>cb \<in> set cbs. CHR '' '' \<notin> set cb \<Longrightarrow>
     filter (\<lambda>c. c \<noteq> CHR '' '') (concat (map (\<lambda>cb. cb @ '' '') cbs)) = concat cbs"
  by (induction cbs) (auto simp: filter_id_conv)

lemma chunks_concat:
  "0 < w \<Longrightarrow> \<forall>cb \<in> set cbs. length cb = w \<Longrightarrow> chunks w (concat cbs) = cbs"
proof (induction cbs)
  case Nil
  show ?case by simp
next
  case (Cons cb cbs)
  then have "cb \<noteq> []" by auto
  then show ?case using Cons by (subst chunks.simps) simp
qed

lemma length_concat_same:
  "\<forall>cb \<in> set cbs. length cb = w \<Longrightarrow> length (concat cbs) = length cbs * w"
  by (induction cbs) simp_all

section \<open>The output of the encoder\<close>

lemma encodeBlocks_values:
  assumes "1 \<le> e" "e < 2 ^ 63" "n \<noteq> 0"
  shows "\<exists>vs. list_all2 (\<lambda>b v. modpow (Atoi b) e n = Some (Inr v)) bs vs
           \<and> encodeBlocks n e bs = Some (Inr (map (Sprintf_0wd (countDigits n)) vs))"
proof (induction bs)
  case Nil
  show ?case by simp
next
  case (Cons b bs)
  obtain v where v: "modpow (Atoi b) e n = Some (Inr v)"
    using modpow_total [OF assms] by blast
  obtain vs where vs: "list_all2 (\<lambda>b v. modpow (Atoi b) e n = Some (Inr v)) bs vs"
      "encodeBlocks n e bs = Some (Inr (map (Sprintf_0wd (countDigits n)) vs))"
    using Cons by blast
  show ?case using v vs by (intro exI [of _ "v # vs"]) simp
qed

lemma encodeMessage_values:
  assumes "blockSize n = Some k" "2 \<le> k" "1 \<le> e" "e < 2 ^ 63"
  shows "\<exists>vs. list_all2 (\<lambda>c v. modpow (Atoi (block_of c)) e n = Some (Inr v))
                 (pchunks (k div 2) (rune_codes msg)) vs
           \<and> encodeMessage n e msg
               = Some (Inr (concat (map (\<lambda>v. Sprintf_0wd (countDigits n) v @ '' '') vs)))"
proof -
  have n: "n \<noteq> 0" using blockSize_ge_25 [OF assms(1,2)] by simp
  have half: "0 < k div 2" using assms(2) by simp
  have bs: "makeBlocks (letterDigits msg) (k div 2) 0 []
      = Some (map block_of (pchunks (k div 2) (rune_codes msg)))"
    using makeBlocks_eq [OF half, of 0 "rune_codes msg" "[]"] by (simp add: letterDigits_codes)
  obtain vs where vs:
    "list_all2 (\<lambda>b v. modpow (Atoi b) e n = Some (Inr v))
       (map block_of (pchunks (k div 2) (rune_codes msg))) vs"
    "encodeBlocks n e (map block_of (pchunks (k div 2) (rune_codes msg)))
       = Some (Inr (map (Sprintf_0wd (countDigits n)) vs))"
    using encodeBlocks_values [OF assms(3,4) n] by blast
  have "list_all2 (\<lambda>c v. modpow (Atoi (block_of c)) e n = Some (Inr v))
          (pchunks (k div 2) (rune_codes msg)) vs"
    using vs(1) by (simp add: list_all2_map1)
  moreover have "encodeMessage n e msg
      = Some (Inr (concat (map (\<lambda>v. Sprintf_0wd (countDigits n) v @ '' '') vs)))"
    by (simp add: encodeMessage_def assms(1) bs vs(2) join_eq comp_def)
  ultimately show ?thesis by blast
qed

section \<open>Formatting numbers\<close>

lemma digits_of_length_mono:
  "0 \<le> c \<Longrightarrow> c \<le> n \<Longrightarrow> length (digits_of c) \<le> length (digits_of n)"
proof (induction n arbitrary: c rule: digits_of.induct)
  case (1 n)
  show ?case
  proof (cases "c < 10")
    case True
    have "Suc 0 \<le> length (digits_of n)"
      using digits_of_nonempty [of n] by (simp add: Suc_le_eq)
    then show ?thesis using True by (subst digits_of.simps [of c]) simp
  next
    case False
    then have n: "\<not> n < 10" using 1(3) by simp
    have "c div 10 \<le> n div 10" using 1(3) by (simp add: zdiv_mono1)
    then have "length (digits_of (c div 10)) \<le> length (digits_of (n div 10))"
      using 1(1) [OF n, of "c div 10"] 1(2) by simp
    then show ?thesis using False n
      by (subst digits_of.simps [of c], subst digits_of.simps [of n]) simp
  qed
qed

lemma is_digit_0: "is_digit CHR ''0''"
  by (simp add: is_digit_def)

lemma is_digit_not_space: "is_digit c \<Longrightarrow> c \<noteq> CHR '' ''"
  by (auto simp: is_digit_def)

lemma Sprintf_0wd_props:
  assumes "0 \<le> c" "length (digits_of c) \<le> w"
  shows "length (Sprintf_0wd w c) = w" "list_all is_digit (Sprintf_0wd w c)"
    "digits_value (Sprintf_0wd w c) = c"
  using assms digits_of_props [of c]
  by (auto simp: Sprintf_0wd_def pad0_def is_digit_0 list_all_iff)

lemma encoded_block:
  assumes "0 \<le> c" "c \<le> n" "n < 2 ^ 63"
  shows "length (Sprintf_0wd (countDigits n) c) = countDigits n"
    "CHR '' '' \<notin> set (Sprintf_0wd (countDigits n) c)"
    "Atoi (Sprintf_0wd (countDigits n) c) = c"
proof -
  have w: "length (digits_of c) \<le> countDigits n"
    using assms digits_of_length_mono [of c n] by (simp add: countDigits_def Sprintf_d_def)
  note p = Sprintf_0wd_props [OF assms(1) w]
  show "length (Sprintf_0wd (countDigits n) c) = countDigits n" by (rule p(1))
  show "CHR '' '' \<notin> set (Sprintf_0wd (countDigits n) c)"
    using p(2) is_digit_not_space by (auto simp: list_all_iff)
  have "Sprintf_0wd (countDigits n) c \<noteq> []" using p(1) countDigits_pos [of n] by auto
  then show "Atoi (Sprintf_0wd (countDigits n) c) = c"
    using p assms by (simp add: Atoi_digits)
qed

lemma digit_char_val: "is_digit c \<Longrightarrow> digit_char (digit_val c) = c"
  by (simp add: is_digit_def digit_char_def digit_val_def)

lemma digit_val_range: "is_digit c \<Longrightarrow> 0 \<le> digit_val c \<and> digit_val c < 10"
  by (auto simp: is_digit_def digit_val_def)

lemma pad0_digits:
  "list_all is_digit s \<Longrightarrow> s \<noteq> [] \<Longrightarrow> pad0 (length s) (digits_of (digits_value s)) = s"
proof (induction s rule: rev_induct)
  case Nil
  then show ?case by simp
next
  case (snoc c s)
  then have c: "is_digit c" and s: "list_all is_digit s" by simp_all
  note r = digit_val_range [OF c]
  show ?case
  proof (cases "s = []")
    case True
    then show ?thesis using r c
      by (simp add: pad0_def digits_of.simps [of "digit_val c"] digit_char_val)
  next
    case False
    then have ih: "pad0 (length s) (digits_of (digits_value s)) = s" using snoc s by simp
    have v0: "0 \<le> digits_value s" using s by (rule digits_value_nonneg)
    show ?thesis
    proof (cases "digits_value s = 0")
      case True
      have z: "digits_of 0 = ''0''" by (simp add: digits_of.simps [of 0] digit_char_0)
      obtain m where m: "length s = Suc m" using False by (cases s) auto
      have "s = replicate m CHR ''0'' @ [CHR ''0'']"
        using ih True z m by (simp add: pad0_def)
      then have "s = replicate (Suc m) CHR ''0''"
        by (simp only: replicate_append_same replicate_Suc)
      then have "s @ [c] = replicate (length s) CHR ''0'' @ [c]" using m by simp
      then show ?thesis using True r c
        by (simp add: pad0_def digits_of.simps [of "digit_val c"] digit_char_val)
    next
      case pos: False
      then have "\<not> digits_value s * 10 + digit_val c < 10" using v0 r by simp
      then have d: "digits_of (digits_value s * 10 + digit_val c)
          = digits_of (digits_value s) @ [c]"
        using r c by (subst digits_of.simps) (simp add: digit_char_val)
      have "length (digits_of (digits_value s)) \<le> length s"
        using ih by (metis pad0_def length_append le_add2)
      then show ?thesis using ih by (simp add: d pad0_def)
    qed
  qed
qed

lemma Sprintf_block:
  assumes "letter_codes idxs" "idxs \<noteq> []"
  shows "Sprintf_0wd (2 * length idxs) (pairs_value idxs) = block_of idxs"
proof -
  have l: "list_all (\<lambda>i. 0 \<le> i \<and> i < 100) idxs"
    using assms(1) by (auto simp: letter_codes_def list_all_iff)
  note p = block_of_props [OF l]
  have "block_of idxs \<noteq> []" using p assms(2) by auto
  then have "pad0 (length (block_of idxs)) (digits_of (digits_value (block_of idxs))) = block_of idxs"
    using p by (intro pad0_digits) simp_all
  moreover have "0 \<le> pairs_value idxs" using pairs_value_bound [OF assms(1)] by simp
  ultimately show ?thesis using p by (simp add: Sprintf_0wd_def)
qed

section \<open>Reading the letters back\<close>

lemma Atoi_pair:
  assumes "0 \<le> i" "i \<le> 25"
  shows "Atoi [digit_char (i div 10), digit_char (i mod 10)] = i"
proof -
  have "letter_codes [i]" using assms by (simp add: letter_codes_def)
  then have "Atoi (block_of [i]) = pairs_value [i]" by (intro Atoi_block) simp_all
  then show ?thesis using assms by (simp add: block_of_def Sprintf_02d pairs_value_def)
qed

lemma blockLetters_eq:
  assumes "letter_codes post"
  shows "blockLetters (block_of pre @ block_of post) (length (block_of pre)) ret
           = Inr (ret @ map letter post)"
  using assms
proof (induction post arbitrary: pre ret)
  case Nil
  show ?case by (subst blockLetters.simps) (simp add: block_of_def)
next
  case (Cons i post)
  then have i: "0 \<le> i" "i \<le> 25" and post: "letter_codes post"
    by (simp_all add: letter_codes_def)
  let ?b = "block_of pre @ block_of (i # post)"
  let ?k = "length (block_of pre)"
  have bi: "block_of (i # post) = digit_char (i div 10) # digit_char (i mod 10) # block_of post"
    using i by (simp add: block_of_def Sprintf_02d)
  have n: "?b ! ?k = digit_char (i div 10)" "?b ! (?k + 1) = digit_char (i mod 10)"
    "?k < length ?b" "\<not> length ?b \<le> ?k + 1"
    by (simp_all add: bi nth_append)
  have re: "?b = block_of (pre @ [i]) @ block_of post"
    "length (block_of (pre @ [i])) = ?k + 2"
    using i by (simp_all add: block_of_def Sprintf_02d)
  have a: "Atoi [?b ! ?k, ?b ! (?k + 1)] = i" unfolding n(1,2) using i by (rule Atoi_pair)
  have "blockLetters ?b ?k ret = blockLetters ?b (?k + 2) (ret @ [letter i])"
    using n(3,4) i
    by (subst blockLetters.simps) (simp only: a Let_def, simp add: letter_def alphabet_def)
  also have "\<dots> = Inr ((ret @ [letter i]) @ map letter post)"
    unfolding re(1) re(2) [symmetric] by (rule Cons.IH [OF post])
  finally show ?case by simp
qed

lemma blocksText_eq:
  "\<forall>c \<in> set cs. letter_codes c \<Longrightarrow>
     blocksText (map block_of cs) ret = Inr (ret @ map letter (concat cs))"
proof (induction cs arbitrary: ret)
  case Nil
  show ?case by simp
next
  case (Cons c cs)
  have "blockLetters (block_of [] @ block_of c) (length (block_of [])) ret
      = Inr (ret @ map letter c)"
    using Cons.prems by (intro blockLetters_eq) simp
  then have "blockLetters (block_of c) 0 ret = Inr (ret @ map letter c)"
    by (simp add: block_of_def)
  then show ?case using Cons by simp
qed

lemma letter_list:
  "list_all (\<lambda>c. letter (of_char c - 65) = c) alphabet"
  by code_simp

lemma letter_idxs_inverse:
  assumes "set msg \<subseteq> set alphabet"
  shows "map letter (letter_idxs msg) = msg"
proof -
  have "letter (of_char c - 65) = c" if "c \<in> set msg" for c
    using that assms letter_list unfolding list_all_iff by blast
  then show ?thesis by (simp add: letter_idxs_def map_idI)
qed

lemma letter_23: "letter 23 = CHR ''X''"
  by code_simp

section \<open>The round trip of one block\<close>

lemma rsa_pair:
  assumes "fermat_pseudoprime p" "fermat_pseudoprime q" "coprime p q" "p * q \<le> 3037000500"
    and "0 < e" "e < 2 ^ 63" "0 \<le> d" "d < 2 ^ 63" "e * d mod ((p - 1) * (q - 1)) = 1"
    and "0 \<le> x" "x < p * q"
  shows "modpow x e (p * q) = Some (Inr (x ^ nat e mod (p * q)))"
    and "modpow (x ^ nat e mod (p * q)) d (p * q) = Some (Inr x)"
proof -
  define n where "n = p * q"
  have n: "0 < n" using assms(10,11) by (simp add: n_def)
  have "d \<noteq> 0" using assms(9) by auto
  then have d: "1 \<le> d" using assms(7) by simp
  define c where "c = x ^ nat e mod n"
  have c: "0 \<le> c" "c < n" using n by (simp_all add: c_def)
  have 1: "modpow x e n = Some (Inr c)"
    unfolding c_def using assms n by (intro modpow_uniform) (simp_all add: n_def)
  have 2: "modpow c d n = Some (Inr (c ^ nat d mod n))"
    using assms n c d by (intro modpow_uniform) (simp_all add: n_def)
  have "c ^ nat d mod n = (x ^ nat e) ^ nat d mod n" by (simp add: c_def power_mod)
  also have "\<dots> = x ^ nat (e * d) mod n"
    using assms(5,7) by (simp add: power_mult [symmetric] nat_mult_distrib)
  also have "\<dots> = x"
    unfolding n_def using assms by (intro rsa_identity_pseudoprime) simp_all
  finally have 3: "c ^ nat d mod n = x" .
  show "modpow x e (p * q) = Some (Inr (x ^ nat e mod (p * q)))"
    using 1 by (simp add: n_def c_def)
  show "modpow (x ^ nat e mod (p * q)) d (p * q) = Some (Inr x)"
    using 2 3 by (simp add: n_def c_def)
qed

lemma five_cancel: "(5::int) * 5 dvd 5 * x \<Longrightarrow> 5 dvd x"
  using dvd_mult_cancel_left [of 5 5 x] by simp

lemma pseudoprime_product_not_25:
  assumes "fermat_pseudoprime p" "fermat_pseudoprime q" "coprime p q"
  shows "\<not> 25 dvd p * q"
proof
  assume "25 dvd p * q"
  then have h: "5 * 5 dvd p * q" by simp
  have five: "is_prime 5" by (rule is_prime_small)
  have no_sq: "\<not> 5 * 5 dvd r" if "fermat_pseudoprime r" for r :: int
    using pseudoprime_squarefree [OF that, of 5] by auto
  have both: "\<not> (5 dvd p \<and> 5 dvd q)"
  proof
    assume "5 dvd p \<and> 5 dvd q"
    then have "is_unit (5::int)" using assms(3) by (meson coprime_common_divisor)
    then show False by simp
  qed
  have "5 dvd p * q" using h by (meson dvd_mult_left)
  then consider "5 dvd p" | "5 dvd q" using is_prime_dvd_mult [OF five] by blast
  then show False
  proof cases
    case 1
    then obtain p' where p': "p = 5 * p'" by (auto simp: dvd_def)
    then have "5 * 5 dvd 5 * (p' * q)" using h by (simp only: mult.assoc)
    then have "5 dvd p' * q" by (rule five_cancel)
    then have "5 dvd p' \<or> 5 dvd q" using is_prime_dvd_mult [OF five] by blast
    then show False using both 1 no_sq [OF assms(1)] p' by auto
  next
    case 2
    then obtain q' where q': "q = 5 * q'" by (auto simp: dvd_def)
    then have "5 * 5 dvd 5 * (p * q')" using h by (simp only: mult.left_commute)
    then have "5 dvd p * q'" by (rule five_cancel)
    then have "5 dvd p \<or> 5 dvd q'" using is_prime_dvd_mult [OF five] by blast
    then show False using both 2 no_sq [OF assms(2)] q' by auto
  qed
qed

lemma block_roundtrip:
  assumes "fermat_pseudoprime p" "fermat_pseudoprime q" "coprime p q" "p * q \<le> 3037000500"
    and "0 < e" "e < 2 ^ 63" "0 \<le> d" "d < 2 ^ 63" "e * d mod ((p - 1) * (q - 1)) = 1"
    and "blockSize (p * q) = Some k" "2 \<le> k"
    and "length c = k div 2" "letter_codes c"
  shows "modpow (Atoi (block_of c)) e (p * q) = Some (Inr (pairs_value c ^ nat e mod (p * q)))"
    and "length (encoded (p * q) e c) = countDigits (p * q)"
    and "CHR '' '' \<notin> set (encoded (p * q) e c)"
    and "modpow (Atoi (encoded (p * q) e c)) d (p * q) = Some (Inr (pairs_value c))"
    and "Sprintf_0wd k (pairs_value c) = block_of c"
proof -
  define n where "n = p * q"
  obtain j where j: "j \<le> 9" "k = 2 * j" "0 < j \<longrightarrow> all25 j \<le> n"
    using blockSize_result [of n k] assms(10) by (auto simp: n_def)
  have len: "length c = j" "0 < j" using assms(11,12) j by simp_all
  then have ne: "c \<noteq> []" by auto
  have a: "Atoi (block_of c) = pairs_value c"
    using assms(13) ne len j(1) by (intro Atoi_block) simp_all
  note b = pairs_value_bound [OF assms(13)]
  have v0: "0 \<le> pairs_value c" using b by simp
  have "pairs_value c \<le> n" using b len j(3) by simp
  moreover have "pairs_value c \<noteq> n"
  proof
    assume "pairs_value c = n"
    then have "pairs_value c = all25 j" using b len j(3) by simp
    then have "25 dvd n" using \<open>pairs_value c = n\<close> all25_25 [of j] by simp
    then show False using pseudoprime_product_not_25 [OF assms(1-3)] by (simp add: n_def)
  qed
  ultimately have vn: "pairs_value c < n" by simp
  note r = rsa_pair [OF assms(1-9) v0, unfolded n_def [symmetric], OF vn]
  show "modpow (Atoi (block_of c)) e (p * q) = Some (Inr (pairs_value c ^ nat e mod (p * q)))"
    using r(1) a by (simp add: n_def)
  define x where "x = pairs_value c ^ nat e mod n"
  have n0: "0 < n" using v0 vn by simp
  have x: "0 \<le> x" "x \<le> n" using n0 by (simp_all add: x_def less_imp_le)
  have nb: "n < 2 ^ 63" using assms(4) by (simp add: n_def)
  note eb = encoded_block [OF x nb]
  show "length (encoded (p * q) e c) = countDigits (p * q)"
    using eb(1) by (simp add: encoded_def x_def n_def)
  show "CHR '' '' \<notin> set (encoded (p * q) e c)"
    using eb(2) by (simp add: encoded_def x_def n_def)
  show "modpow (Atoi (encoded (p * q) e c)) d (p * q) = Some (Inr (pairs_value c))"
    using eb(3) r(2) by (simp add: encoded_def x_def n_def)
  show "Sprintf_0wd k (pairs_value c) = block_of c"
    using Sprintf_block [OF assms(13) ne] len j(2) by simp
qed

lemma encodeBlocks_eq:
  assumes "\<And>c. c \<in> set cs \<Longrightarrow>
      modpow (Atoi (block_of c)) e n = Some (Inr (pairs_value c ^ nat e mod n))"
  shows "encodeBlocks n e (map block_of cs) = Some (Inr (map (encoded n e) cs))"
  using assms by (induction cs) (simp_all add: encoded_def)

lemma decodeBlocks_eq:
  assumes "\<And>c. c \<in> set cs \<Longrightarrow>
      modpow (Atoi (encoded n e c)) d n = Some (Inr (pairs_value c))
      \<and> Sprintf_0wd k (pairs_value c) = block_of c"
  shows "decodeBlocks n d k (map (encoded n e) cs) = Some (Inr (map block_of cs))"
  using assms by (induction cs) simp_all

section \<open>The round trip of a message\<close>

lemma message_roundtrip:
  assumes "fermat_pseudoprime p" "fermat_pseudoprime q" "coprime p q" "p * q \<le> 3037000500"
    and "0 < e" "e < 2 ^ 63" "0 \<le> d" "d < 2 ^ 63" "e * d mod ((p - 1) * (q - 1)) = 1"
    and "blockSize (p * q) = Some k" "2 \<le> k" "set msg \<subseteq> set alphabet"
  shows "bindR (encodeMessage (p * q) e msg) (decodeMessage (p * q) d)
           = Some (Inr (msg @ replicate ((k div 2 - length msg mod (k div 2)) mod (k div 2)) CHR ''X''))"
proof -
  define n where "n = p * q"
  define half where "half = k div 2"
  define idxs where "idxs = letter_idxs msg"
  define cs where "cs = pchunks half idxs"
  define cbs where "cbs = map (encoded n e) cs"
  define w where "w = countDigits n"
  have half: "0 < half" using assms(11) by (simp add: half_def)
  have codes: "letter_codes idxs" unfolding idxs_def using assms(12) by (rule letter_idxs_codes)
  have chunk: "length c = k div 2 \<and> letter_codes c" if "c \<in> set cs" for c
    using pchunks_props [OF half codes, of c] that by (simp add: cs_def half_def)
  note br = block_roundtrip [OF assms(1-11), unfolded n_def [symmetric]]
  have ms: "letterDigits msg = map (Sprintf_0wd 2) idxs"
    unfolding idxs_def using assms(12) by (rule letterDigits_alphabet)
  have blocks: "makeBlocks (letterDigits msg) half 0 [] = Some (map block_of cs)"
    using makeBlocks_eq [OF half, of 0 idxs "[]"] by (simp add: ms cs_def)
  have enc: "encodeBlocks n e (map block_of cs) = Some (Inr cbs)"
    unfolding cbs_def using chunk br(1) by (intro encodeBlocks_eq) simp
  have em: "encodeMessage n e msg = Some (Inr (concat (map (\<lambda>cb. cb @ '' '') cbs)))"
    using assms(10) blocks enc
    by (simp add: encodeMessage_def n_def [symmetric] half_def [symmetric] join_eq)
  have lens: "\<forall>cb \<in> set cbs. length cb = w"
    using chunk br(2) by (auto simp: cbs_def w_def)
  have nosp: "\<forall>cb \<in> set cbs. CHR '' '' \<notin> set cb"
    using chunk br(3) by (auto simp: cbs_def)
  have wpos: "0 < w" unfolding w_def by (rule countDigits_pos)
  have strip: "filter (\<lambda>c. c \<noteq> CHR '' '') (concat (map (\<lambda>cb. cb @ '' '') cbs)) = concat cbs"
    using nosp by (rule strip_joined)
  have dv: "w dvd length (concat cbs)" using length_concat_same [OF lens] by simp
  have ch: "chunks w (concat cbs) = cbs" using wpos lens by (rule chunks_concat)
  have dec: "decodeBlocks n d k cbs = Some (Inr (map block_of cs))"
    unfolding cbs_def using chunk br(4,5) by (intro decodeBlocks_eq) simp
  have text_eq: "blocksText (map block_of cs) [] = Inr (map letter (concat cs))"
    using blocksText_eq [of cs "[]"] chunk by simp
  have "concat cs = idxs @ replicate ((half - length idxs mod half) mod half) 23"
    unfolding cs_def using half by (rule pchunks_concat)
  then have "map letter (concat cs)
      = msg @ replicate ((half - length msg mod half) mod half) CHR ''X''"
    using letter_idxs_inverse [OF assms(12)]
    by (simp add: idxs_def [symmetric] letter_23) (simp add: idxs_def letter_idxs_def)
  then have "decodeMessage n d (concat (map (\<lambda>cb. cb @ '' '') cbs))
      = Some (Inr (msg @ replicate ((half - length msg mod half) mod half) CHR ''X''))"
    using dv ch dec text_eq assms(10)
    by (simp add: decodeMessage_split strip w_def [symmetric] n_def [symmetric])
  then show ?thesis by (simp add: em n_def [symmetric] half_def)
qed

section \<open>The claims\<close>

text \<open>
  C1 (as amended). For every key pair \<open>(n, e, d)\<close> produced by \<^verbatim>\<open>genereateRSAKeys\<close> in a run
  whose two generated numbers \<open>p\<close>, \<open>q\<close> are coprime, with \<open>blockSize n \<ge> 2\<close>, and every message
  made of the letters \<open>A..Z\<close>, decoding the encoded message returns the message followed by
  the letters X that fill its last block; it returns exactly the message when its length is
  a multiple of \<open>blockSize n / 2\<close>.
\<close>

theorem codec_roundtrip:
  "genereateRSAKeys_from rs p q (n, e, d) rs' \<and> coprime p q \<and> blockSize n = Some k \<and> 2 \<le> k
     \<and> set msg \<subseteq> set alphabet \<longrightarrow>
   bindR (encodeMessage n e msg) (decodeMessage n d)
     = Some (Inr (msg @ replicate ((k div 2 - length msg mod (k div 2)) mod (k div 2)) CHR ''X''))
   \<and> (k div 2 dvd length msg \<longrightarrow>
        bindR (encodeMessage n e msg) (decodeMessage n d) = Some (Inr msg))"
proof
  assume h: "genereateRSAKeys_from rs p q (n, e, d) rs' \<and> coprime p q \<and> blockSize n = Some k
     \<and> 2 \<le> k \<and> set msg \<subseteq> set alphabet"
  note f = genereateRSAKeys_from_facts [of rs p q n e d rs']
  have "p * q \<le> 54772 * 54772" using h f by (intro mult_mono) auto
  then have n: "p * q \<le> 3037000500" by simp
  have "(p - 1) * (q - 1) \<le> 54771 * 54771" using h f by (intro mult_mono) auto
  then have d: "d < 2 ^ 63" using h f by simp
  have bs: "blockSize (p * q) = Some k" using h f by simp
  have "bindR (encodeMessage (p * q) e msg) (decodeMessage (p * q) d)
      = Some (Inr (msg @ replicate ((k div 2 - length msg mod (k div 2)) mod (k div 2)) CHR ''X''))"
    using h f n d bs by (intro message_roundtrip) simp_all
  then have r: "bindR (encodeMessage n e msg) (decodeMessage n d)
      = Some (Inr (msg @ replicate ((k div 2 - length msg mod (k div 2)) mod (k div 2)) CHR ''X''))"
    using h f by simp
  moreover have "bindR (encodeMessage n e msg) (decodeMessage n d) = Some (Inr msg)"
    if "k div 2 dvd length msg"
    using r that by (simp add: dvd_eq_mod_eq_0)
  ultimately show "bindR (encodeMessage n e msg) (decodeMessage n d)
     = Some (Inr (msg @ replicate ((k div 2 - length msg mod (k div 2)) mod (k div 2)) CHR ''X''))
   \<and> (k div 2 dvd length msg \<longrightarrow>
        bindR (encodeMessage n e msg) (decodeMessage n d) = Some (Inr msg))"
    by blast
qed

theorem codec_roundtrip_witness:
  "genereateRSAKeys_from [61, 0, 53, 0, 17, 0] 61 53 (3233, 17, 2753) [] \<and> coprime (61::int) 53
     \<and> blockSize 3233 = Some 4 \<and> set ''HELP'' \<subseteq> set alphabet
     \<and> bindR (encodeMessage 3233 17 ''HELP'') (decodeMessage 3233 2753) = Some (Inr ''HELP'')
     \<and> bindR (encodeMessage 3233 17 ''HELLO'') (decodeMessage 3233 2753) = Some (Inr ''HELLOX'')"
proof -
  have c: "coprime (61::int) 53"
    using is_prime_coprime [OF is_prime_small(6), of 53] by simp
  have a: "set ''HELP'' \<subseteq> set alphabet" "set ''HELLO'' \<subseteq> set alphabet"
    by (simp_all add: alphabet_def)
  show ?thesis
    using codec_roundtrip [of "[61, 0, 53, 0, 17, 0]" 61 53 3233 17 2753 "[]" 4 "''HELP''"]
      codec_roundtrip [of "[61, 0, 53, 0, 17, 0]" 61 53 3233 17 2753 "[]" 4 "''HELLO''"]
      run_3233 blockSize_3233 c a
    by simp
qed

text \<open>
  C1 as stated fails for a length that is not a multiple of \<open>blockSize n / 2\<close>: with the
  key \<open>(3233, 17, 2753)\<close> the message \<open>A\<close> comes back as \<open>AX\<close>.
\<close>

theorem codec_padding_counterexample:
  "genereateRSAKeys [61, 0, 53, 0, 17, 0] (3233, 17, 2753) [] \<and> set ''A'' \<subseteq> set alphabet
     \<and> bindR (encodeMessage 3233 17 ''A'') (decodeMessage 3233 2753) = Some (Inr ''AX'')
     \<and> ''AX'' \<noteq> ''A''"
proof -
  have "genereateRSAKeys [61, 0, 53, 0, 17, 0] (3233, 17, 2753) []"
    unfolding genereateRSAKeys_def using run_3233 by blast
  moreover have "bindR (encodeMessage 3233 17 ''A'') (decodeMessage 3233 2753) = Some (Inr ''AX'')"
    by code_simp
  ultimately show ?thesis by (simp add: alphabet_def)
qed

text \<open>
  C2 (as amended). For every triple \<open>(n, e, d)\<close> returned by \<^verbatim>\<open>genereateRSAKeys\<close> in a run
  whose two generated numbers \<open>p\<close> and \<open>q\<close> are coprime (for primes: different), and every
  \<open>0 \<le> x < n\<close>, \<^verbatim>\<open>modpow(modpow(x, e, n), d, n)\<close> returns \<open>x\<close>.
\<close>

theorem rsa_modpow_roundtrip:
  "genereateRSAKeys_from rs p q (n, e, d) rs' \<and> coprime p q \<and> 0 \<le> x \<and> x < n
     \<longrightarrow> bindR (modpow x e n) (\<lambda>c. modpow c d n) = Some (Inr x)"
proof
  assume h: "genereateRSAKeys_from rs p q (n, e, d) rs' \<and> coprime p q \<and> 0 \<le> x \<and> x < n"
  note k = genereateRSAKeys_from_facts [of rs p q n e d rs']
  have "p * q \<le> 54772 * 54772" using h k by (intro mult_mono) auto
  then have n: "p * q \<le> 3037000500" by simp
  have "(p - 1) * (q - 1) \<le> 54771 * 54771" using h k by (intro mult_mono) auto
  then have "d < 2 ^ 63" using h k by simp
  then have "bindR (modpow x e (p * q)) (\<lambda>c. modpow c d (p * q)) = Some (Inr x)"
    using h k n by (intro rsa_roundtrip) simp_all
  then show "bindR (modpow x e n) (\<lambda>c. modpow c d n) = Some (Inr x)" using h k by simp
qed

theorem rsa_modpow_roundtrip_witness:
  "genereateRSAKeys_from [61, 0, 53, 0, 17, 0] 61 53 (3233, 17, 2753) [] \<and> coprime (61::int) 53
     \<and> bindR (modpow 65 17 3233) (\<lambda>c. modpow c 2753 3233) = Some (Inr 65)"
proof -
  have "coprime (61::int) 53"
    using is_prime_coprime [OF is_prime_small(6), of 53] by simp
  then show ?thesis
    using rsa_modpow_roundtrip [of "[61, 0, 53, 0, 17, 0]" 61 53 3233 17 2753 "[]" 65] run_3233
    by simp
qed

text \<open>
  C2 as stated fails when the two draws coincide: the run that draws \<open>p = q = 3\<close> and
  \<open>e = 3\<close> returns \<open>(9, 3, 3)\<close>, and \<open>x = 3\<close> comes back as 0.
\<close>

theorem rsa_equal_primes_counterexample:
  "genereateRSAKeys [3, 0, 3, 0, 3, 0] (9, 3, 3) [] \<and> (0::int) \<le> 3 \<and> (3::int) < 9
     \<and> bindR (modpow 3 3 9) (\<lambda>c. modpow c 3 9) = Some (Inr 0)"
proof -
  have "genereateRSAKeys [3, 0, 3, 0, 3, 0] (9, 3, 3) []"
    unfolding genereateRSAKeys_def using run_9 by blast
  moreover have "bindR (modpow 3 3 9) (\<lambda>c. modpow c 3 9) = Some (Inr 0)" by code_simp
  ultimately show ?thesis by simp
qed

text \<open>
  C3 (as amended). For a modulus \<open>1 \<le> n \<le> 3037000500\<close> (so that \<open>(n - 1)\<^sup>2\<close> fits in
  an \<^verbatim>\<open>int64\<close>), a base \<open>0 \<le> a < n\<close> and an exponent \<open>b \<ge> 1\<close>,
  \<^verbatim>\<open>modpow(a, b, n)\<close> returns \<open>a\<^sup>b mod n\<close>; in particular
  \<^verbatim>\<open>modpow(65, 17, 3233) = 2790\<close> and \<^verbatim>\<open>modpow(2790, 2753, 3233) = 65\<close>.
\<close>

theorem modpow_power_mod:
  "(1 \<le> n \<and> n \<le> 3037000500 \<and> 0 \<le> a \<and> a < n \<and> 1 \<le> b \<and> int64 b
      \<longrightarrow> modpow a b n = Some (Inr (a ^ nat b mod n)))
   \<and> modpow 65 17 3233 = Some (Inr 2790)
   \<and> modpow 2790 2753 3233 = Some (Inr 65)"
proof (intro conjI impI)
  assume h: "1 \<le> n \<and> n \<le> 3037000500 \<and> 0 \<le> a \<and> a < n \<and> 1 \<le> b \<and> int64 b"
  have "a * n \<le> 3037000499 * 3037000500" using h by (intro mult_mono) auto
  then have "\<bar>a\<bar> * n < 2 ^ 63" using h by simp
  then have "modpow a b n = Some (Inr (if b = 1 then a else a ^ nat b mod n))"
    using h by (intro modpow_pow) (auto simp: int64_def)
  then show "modpow a b n = Some (Inr (a ^ nat b mod n))" using h by auto
next
  show "modpow 65 17 3233 = Some (Inr 2790)"
    by code_simp
next
  show "modpow 2790 2753 3233 = Some (Inr 65)"
    by code_simp
qed

theorem modpow_power_mod_witness:
  "modpow 4 13 497 = Some (Inr 445)"
  using modpow_power_mod [of 497 4 13] by (simp add: int64_def)

text \<open>
  C3 as stated fails once \<open>x * x\<close> overflows: with \<open>n = 2\<^sup>6\<^sup>2 + 1\<close> and \<open>a = 2\<^sup>3\<^sup>2\<close> the square
  \<open>2\<^sup>6\<^sup>4\<close> wraps around to 0.
\<close>

theorem modpow_overflow_counterexample:
  "int64 4611686018427387905 \<and> (0::int) \<le> 4294967296 \<and> (4294967296::int) < 4611686018427387905
   \<and> modpow 4294967296 2 4611686018427387905 = Some (Inr 0)
   \<and> (4294967296::int) ^ nat 2 mod 4611686018427387905 = 4611686018427387901"
  by (simp add: int64_def modpow.simps [of _ 2] modpow.simps [of _ 1] go_div_def go_rem_def
      wrap64_def mod_go_def)

text \<open>
  C4 (as amended). For all non-negative \<^verbatim>\<open>int64\<close> values \<open>a\<close>, \<open>b\<close>,
  \<^verbatim>\<open>mdcExtended(a, b)\<close> returns a pair \<open>(s, t)\<close> with \<open>a * s + b * t = gcd a b\<close>, and
  \<^verbatim>\<open>mdc(a, b)\<close> returns that greatest common divisor.
\<close>

theorem mdcExtended_bezout:
  "int64 a \<and> int64 b \<and> 0 \<le> a \<and> 0 \<le> b \<longrightarrow>
     (\<exists>s t. mdcExtended a b = Some (s, t) \<and> a * s + b * t = gcd a b
        \<and> mdc a b = Inr (gcd a b))"
proof
  assume h: "int64 a \<and> int64 b \<and> 0 \<le> a \<and> 0 \<le> b"
  then obtain s t where "mdcExtended a b = Some (s, t)" "a * s + b * t = gcd a b"
    using mdcExtended_nonneg [of a b] by (auto simp: int64_def)
  moreover have "mdc a b = Inr (gcd a b)" using h by (auto simp: mdc_eq)
  ultimately show "\<exists>s t. mdcExtended a b = Some (s, t) \<and> a * s + b * t = gcd a b
        \<and> mdc a b = Inr (gcd a b)" by blast
qed

theorem mdcExtended_bezout_witness:
  "\<exists>s t. mdcExtended 240 46 = Some (s, t) \<and> 240 * s + 46 * t = gcd 240 46
        \<and> mdc 240 46 = Inr (gcd 240 46)"
  using mdcExtended_bezout [of 240 46] by (simp add: int64_def)

text \<open>
  C4 as stated fails for a negative input: the truncating quotient makes the last
  remainder \<open>-1\<close>, while \<^verbatim>\<open>mdc(-7, 3)\<close> and the greatest common divisor are 1.
\<close>

theorem mdcExtended_negative_counterexample:
  "int64 (- 7) \<and> int64 3 \<and> mdcExtended (- 7) 3 = Some (1, 2)
   \<and> (- 7) * 1 + 3 * 2 = (- 1 :: int) \<and> gcd (- 7 :: int) 3 = 1 \<and> mdc (- 7) 3 = Inr 1"
proof -
  have "mdcExtended (- 7) 3 = Some (1, 2)" by code_simp
  moreover have "mdc (- 7) 3 = Inr 1" by code_simp
  moreover have "gcd (- 7 :: int) 3 = 1" by code_simp
  ultimately show ?thesis by (simp add: int64_def)
qed

text \<open>
  C5 (as amended). For \<open>3 \<le> n \<le> 3037000500\<close>, \<^verbatim>\<open>isPrime(n)\<close> returns true exactly when every
  base \<open>a\<close> in \<open>[1, 1000000)\<close> coprime to \<open>n\<close> has \<open>a\<^bsup>n-1\<^esup> mod n = 1\<close>; so it returns true
  for every prime in that range, in particular for every prime from 3 up to 54772, and false
  for every \<open>n\<close> with a base that fails the test, in particular for every \<open>n \<le> 1000000\<close>
  divisible by a square \<open>c\<^sup>2 > 1\<close>.
\<close>

theorem isPrime_fermat_test:
  "(3 \<le> n \<and> n \<le> 3037000500 \<longrightarrow>
      isPrime n = Some (Inr (\<forall>a \<in> {1..<1000000}. coprime a n \<longrightarrow> a ^ nat (n - 1) mod n = 1)))
   \<and> (is_prime n \<and> 3 \<le> n \<and> n \<le> 3037000500 \<longrightarrow> isPrime n = Some (Inr True))
   \<and> (3 \<le> n \<and> n \<le> 1000000 \<and> 1 < c \<and> c * c dvd n \<longrightarrow> isPrime n = Some (Inr False))"
proof (intro conjI impI)
  assume "3 \<le> n \<and> n \<le> 3037000500"
  then show "isPrime n = Some (Inr (\<forall>a \<in> {1..<1000000}. coprime a n \<longrightarrow> a ^ nat (n - 1) mod n = 1))"
    by (simp add: isPrime_eq fermat_test_def)
next
  assume "is_prime n \<and> 3 \<le> n \<and> n \<le> 3037000500"
  then show "isPrime n = Some (Inr True)" by (simp add: isPrime_prime)
next
  assume h: "3 \<le> n \<and> n \<le> 1000000 \<and> 1 < c \<and> c * c dvd n"
  have "\<not> fermat_pseudoprime n"
  proof
    assume "fermat_pseudoprime n"
    then have "c = 1" using h by (intro pseudoprime_squarefree [of n c]) simp_all
    then show False using h by simp
  qed
  then have "\<not> fermat_test 1 n" using h by (simp add: fermat_test_pseudoprime)
  then show "isPrime n = Some (Inr False)" using h by (simp add: isPrime_eq)
qed

theorem isPrime_fermat_test_witness:
  "isPrime 4 = Some (Inr False) \<and> is_prime 61 \<and> isPrime 61 = Some (Inr True)
     \<and> (3::int) * 3 dvd 9 \<and> isPrime 9 = Some (Inr False)"
proof -
  have "coprime (3::int) 4"
    using is_prime_coprime [OF is_prime_small(1), of 4] by simp
  moreover have "(3::int) ^ nat (4 - 1) mod 4 \<noteq> 1" by simp
  ultimately have neg: "\<not> (\<forall>a \<in> {1..<1000000}. coprime a (4::int) \<longrightarrow> a ^ nat (4 - 1) mod 4 = 1)"
    by (intro notI) (drule bspec [of _ _ 3], simp_all)
  have a: "isPrime 4 = Some (Inr (\<forall>a \<in> {1..<1000000}. coprime a (4::int) \<longrightarrow> a ^ nat (4 - 1) mod 4 = 1))"
    by (rule isPrime_fermat_test [of 4, THEN conjunct1, THEN mp]) simp
  have b: "isPrime 61 = Some (Inr True)"
    by (rule isPrime_fermat_test [of 61, THEN conjunct2, THEN conjunct1, THEN mp])
       (simp add: is_prime_small)
  have c: "isPrime 9 = Some (Inr False)"
    by (rule isPrime_fermat_test [of 9 3, THEN conjunct2, THEN conjunct2, THEN mp]) simp
  show ?thesis using a b c neg by (simp add: is_prime_small)
qed

text \<open>
  C5 as stated fails in both halves: the Carmichael number \<open>561 = 3 * 11 * 17\<close> passes the
  test for every coprime base, and the prime 2 is rejected (\<^verbatim>\<open>modpow(3, 1, 2)\<close> is 3).
\<close>

theorem isPrime_carmichael_counterexample:
  "(3::int) dvd 561 \<and> \<not> is_prime 561 \<and> isPrime 561 = Some (Inr True)
     \<and> is_prime 2 \<and> isPrime 2 = Some (Inr False)"
proof -
  have "\<not> is_prime 561" by code_simp
  moreover have "is_prime 2" by code_simp
  moreover have "isPrime 561 = Some (Inr True)"
    using pseudoprime_561 by (simp add: isPrime_eq fermat_pseudoprime_test)
  ultimately show ?thesis by (simp add: isPrime_2)
qed

text \<open>
  C6 (as amended). Every triple \<open>(n, e, d)\<close> returned by \<^verbatim>\<open>genereateRSAKeys\<close> has \<open>n = p * q\<close>
  for the two generated numbers \<open>p\<close>, \<open>q\<close>, \<open>0 < e \<le> 65535\<close> with \<open>gcd e phi = 1\<close>, and
  \<open>0 \<le> d < phi\<close> with \<open>e * d mod phi = 1\<close>, where \<open>phi = (p - 1) * (q - 1)\<close>.
\<close>

theorem genereateRSAKeys_key_pair:
  "genereateRSAKeys rs (n, e, d) rs' \<longrightarrow>
     (\<exists>p q. genereateRSAKeys_from rs p q (n, e, d) rs' \<and> n = p * q
        \<and> 0 < e \<and> e \<le> 65535 \<and> gcd e ((p - 1) * (q - 1)) = 1
        \<and> 0 \<le> d \<and> d < (p - 1) * (q - 1) \<and> e * d mod ((p - 1) * (q - 1)) = 1)"
proof
  assume "genereateRSAKeys rs (n, e, d) rs'"
  then obtain p q where k: "genereateRSAKeys_from rs p q (n, e, d) rs'"
    unfolding genereateRSAKeys_def by blast
  show "\<exists>p q. genereateRSAKeys_from rs p q (n, e, d) rs' \<and> n = p * q
        \<and> 0 < e \<and> e \<le> 65535 \<and> gcd e ((p - 1) * (q - 1)) = 1
        \<and> 0 \<le> d \<and> d < (p - 1) * (q - 1) \<and> e * d mod ((p - 1) * (q - 1)) = 1"
    using k genereateRSAKeys_from_facts [OF k] by (intro exI [of _ p] exI [of _ q]) simp
qed

theorem genereateRSAKeys_key_pair_witness:
  "genereateRSAKeys [61, 0, 53, 0, 17, 0] (3233, 17, 2753) [] \<and>
     (\<exists>p q. genereateRSAKeys_from [61, 0, 53, 0, 17, 0] p q (3233, 17, 2753) [] \<and> 3233 = p * q
        \<and> gcd 17 ((p - 1) * (q - 1)) = 1
        \<and> 2753 < (p - 1) * (q - 1) \<and> 17 * 2753 mod ((p - 1) * (q - 1)) = 1)"
proof -
  have g: "genereateRSAKeys [61, 0, 53, 0, 17, 0] (3233, 17, 2753) []"
    unfolding genereateRSAKeys_def using run_3233 by blast
  then show ?thesis
    using genereateRSAKeys_key_pair [of "[61, 0, 53, 0, 17, 0]" 3233 17 2753 "[]"] by auto
qed

text \<open>
  C6 as stated fails on \<open>e < phi\<close>: the public exponent is any 16-bit number coprime to
  \<open>phi\<close>. The run that draws \<open>p = 3\<close>, \<open>q = 5\<close> and \<open>e = 9\<close> returns \<open>(15, 9, 1)\<close>, with
  \<open>phi = 8\<close>.
\<close>

theorem genereateRSAKeys_large_e_counterexample:
  "genereateRSAKeys [3, 0, 5, 0, 9, 0] (15, 9, 1) []
     \<and> genereateRSAKeys_from [3, 0, 5, 0, 9, 0] 3 5 (15, 9, 1) []
     \<and> \<not> (9::int) < (3 - 1) * (5 - 1)"
proof -
  have "genereateRSAKeys [3, 0, 5, 0, 9, 0] (15, 9, 1) []"
    unfolding genereateRSAKeys_def using run_15 by blast
  then show ?thesis using run_15 by simp
qed

text \<open>
  C7. For every \<open>n = p * q\<close> with \<open>p\<close>, \<open>q\<close> prime and different, and every public exponent
  \<open>e\<close> (a non-negative number) with \<open>gcd e ((p - 1) * (q - 1)) = 1\<close>, \<^verbatim>\<open>findPrivateKey(n, e)\<close>
  returns a non-negative \<open>d\<close> with \<open>e * d mod ((p - 1) * (q - 1)) = 1\<close>. This \<open>d\<close> has the
  round-trip property of a generated one: when \<open>n \<le> 3037000500\<close>, so that the products in
  \<^verbatim>\<open>modpow\<close> fit in an \<^verbatim>\<open>int64\<close>, \<^verbatim>\<open>modpow(modpow(x, e, n), d, n) = x\<close> for \<open>0 \<le> x < n\<close>.
  For \<open>n = 3233 = 61 * 53\<close> and \<open>e = 17\<close> it returns 2753, and \<open>17 * 2753 mod 3120 = 1\<close>.
\<close>

theorem findPrivateKey_recovers:
  "is_prime p \<and> is_prime q \<and> p \<noteq> q \<and> n = p * q \<and> int64 n \<and> 0 \<le> e \<and> int64 e
     \<and> gcd e ((p - 1) * (q - 1)) = 1 \<longrightarrow>
   (\<exists>d. findPrivateKey n e = Some d \<and> 0 \<le> d \<and> e * d mod ((p - 1) * (q - 1)) = 1
      \<and> (n \<le> 3037000500 \<longrightarrow>
            (\<forall>x. 0 \<le> x \<and> x < n \<longrightarrow> bindR (modpow x e n) (\<lambda>c. modpow c d n) = Some (Inr x))))"
proof
  assume h: "is_prime p \<and> is_prime q \<and> p \<noteq> q \<and> n = p * q \<and> int64 n \<and> 0 \<le> e \<and> int64 e
     \<and> gcd e ((p - 1) * (q - 1)) = 1"
  then obtain d where d: "findPrivateKey n e = Some d" "0 \<le> d" "d < (p - 1) * (q - 1)"
    "e * d mod ((p - 1) * (q - 1)) = 1"
    using findPrivateKey_prime_product [of p q e] by (auto simp: int64_def)
  have pq: "2 \<le> p" "2 \<le> q" using h by (simp_all add: is_prime_def)
  have "(p - 1) * (q - 1) \<le> p * q" using pq by (intro mult_mono) auto
  then have db: "d < 2 ^ 63" using d(3) h by (simp add: int64_def)
  have "e \<noteq> 0" using d(4) by auto
  then have e: "0 < e" "e < 2 ^ 63" using h by (simp_all add: int64_def)
  have rt: "bindR (modpow x e n) (\<lambda>c. modpow c d n) = Some (Inr x)"
    if "n \<le> 3037000500" "0 \<le> x \<and> x < n" for x
  proof -
    have "bindR (modpow x e (p * q)) (\<lambda>c. modpow c d (p * q)) = Some (Inr x)"
      using h that e d db
      by (intro rsa_roundtrip prime_pseudoprime distinct_primes_coprime) simp_all
    then show ?thesis using h by simp
  qed
  show "\<exists>d. findPrivateKey n e = Some d \<and> 0 \<le> d \<and> e * d mod ((p - 1) * (q - 1)) = 1
      \<and> (n \<le> 3037000500 \<longrightarrow>
            (\<forall>x. 0 \<le> x \<and> x < n \<longrightarrow> bindR (modpow x e n) (\<lambda>c. modpow c d n) = Some (Inr x)))"
    using d rt by (intro exI [of _ d]) simp
qed

theorem findPrivateKey_recovers_witness:
  "is_prime 61 \<and> is_prime 53 \<and> gcd (17::int) ((61 - 1) * (53 - 1)) = 1
     \<and> findPrivateKey 3233 17 = Some 2753 \<and> (17 * 2753 mod ((61 - 1) * (53 - 1)) = (1::int))
     \<and> bindR (modpow 65 17 3233) (\<lambda>c. modpow c 2753 3233) = Some (Inr 65)"
proof -
  have g: "gcd (17::int) ((61 - 1) * (53 - 1)) = 1" by code_simp
  then show ?thesis
    using findPrivateKey_recovers [of 61 53 3233 17] findPrivateKey_3233
    by (simp add: is_prime_small int64_def)
qed

text \<open>
  C8 (as amended). \<^verbatim>\<open>decodeMessage(n, d, msg)\<close> aborts with its own panic, the one for a
  wrong block length, if and only if the length of \<open>msg\<close> without its spaces is not a
  multiple of the digit count of \<open>n\<close>. (When it is a multiple the call can still abort, with
  a run-time panic of another kind.)
\<close>

theorem decodeMessage_wrong_length:
  "decodeMessage n d msg = Some (Inl WrongBlockLength)
     \<longleftrightarrow> \<not> countDigits n dvd length (filter (\<lambda>c. c \<noteq> CHR '' '') msg)"
proof (cases "countDigits n dvd length (filter (\<lambda>c. c \<noteq> CHR '' '') msg)")
  case False
  then show ?thesis by (simp add: decodeMessage_split)
next
  case True
  have "decodeMessage n d msg \<noteq> Some (Inl WrongBlockLength)"
  proof (cases "blockSize n")
    case None
    then show ?thesis using True by (simp add: decodeMessage_split)
  next
    case (Some k)
    show ?thesis
    proof (cases "decodeBlocks n d k (chunks (countDigits n) (filter (\<lambda>c. c \<noteq> CHR '' '') msg))")
      case None
      then show ?thesis using True Some by (simp add: decodeMessage_split)
    next
      case (Some r)
      then show ?thesis
        using True \<open>blockSize n = Some k\<close> decodeBlocks_error [of n d k] blocksText_error
        by (cases r) (auto simp: decodeMessage_split)
    qed
  qed
  then show ?thesis using True by simp
qed

text \<open>
  C8 as stated fails in its second half: \<open>0099\<close> has the length of one block for
  \<open>n = 3233\<close>, and decoding it indexes the alphabet at 99.
\<close>

theorem decodeMessage_index_counterexample:
  "countDigits 3233 dvd length (filter (\<lambda>c. c \<noteq> CHR '' '') ''0099'')
     \<and> decodeMessage 3233 1 ''0099'' = Some (Inl IndexOutOfRange)"
  by code_simp

text \<open>
  C9 (as amended). For every modulus \<open>n\<close> with \<open>blockSize n \<ge> 2\<close>, every block of that width made
  of two-digit letter codes from 00 to 25 denotes a number that is at most \<open>n\<close>, and equal to
  \<open>n\<close> only if every code is 25 (and then 25 divides \<open>n\<close>).
\<close>

theorem plain_block_le_modulus:
  "blockSize n = Some k \<and> 2 \<le> k \<and> length idxs = k div 2 \<and> letter_codes idxs \<longrightarrow>
     Atoi (block_of idxs) \<le> n
     \<and> (Atoi (block_of idxs) = n \<longrightarrow> idxs = replicate (k div 2) 25 \<and> 25 dvd n)"
proof
  assume h: "blockSize n = Some k \<and> 2 \<le> k \<and> length idxs = k div 2 \<and> letter_codes idxs"
  then obtain j where j: "j \<le> 9" "k = 2 * j" "0 < j \<longrightarrow> all25 j \<le> n"
    using blockSize_result [of n k] by auto
  have len: "length idxs = j" "0 < j" using h j by simp_all
  then have ne: "idxs \<noteq> []" by auto
  have a: "Atoi (block_of idxs) = pairs_value idxs"
    using h ne len j(1) by (intro Atoi_block) simp_all
  note b = pairs_value_bound [of idxs]
  have le: "pairs_value idxs \<le> all25 j" using b h len by simp
  have eq: "idxs = replicate (k div 2) 25 \<and> 25 dvd n" if "pairs_value idxs = n"
  proof -
    have "pairs_value idxs = all25 j" using that le j(3) len by simp
    then have "idxs = replicate j 25" using b h len by simp
    moreover have "25 dvd n" using \<open>pairs_value idxs = all25 j\<close> that all25_25 [of j] by simp
    ultimately show ?thesis using j(2) by simp
  qed
  show "Atoi (block_of idxs) \<le> n
     \<and> (Atoi (block_of idxs) = n \<longrightarrow> idxs = replicate (k div 2) 25 \<and> 25 dvd n)"
    using a le j(3) len eq by auto
qed

theorem plain_block_le_modulus_witness:
  "blockSize 3233 = Some 4 \<and> letter_codes [7, 4] \<and> block_of [7, 4] = ''0704''
     \<and> Atoi (block_of [7, 4]) \<le> 3233"
proof -
  have "letter_codes [7, 4]" by (simp add: letter_codes_def)
  moreover have "block_of [7, 4] = ''0704''" by code_simp
  ultimately show ?thesis
    using plain_block_le_modulus [of 3233 4 "[7, 4]"] blockSize_3233 by simp
qed

text \<open>
  C9 as stated fails at \<open>n = 25\<close>: the block width is 2 and the block \<open>25\<close> (the letter Z)
  denotes 25, which is not below \<open>n\<close>.
\<close>

theorem plain_block_equal_counterexample:
  "blockSize 25 = Some 2 \<and> length [25 :: int] = 2 div 2 \<and> letter_codes [25]
     \<and> block_of [25] = ''25'' \<and> Atoi (block_of [25]) = 25 \<and> \<not> Atoi (block_of [25]) < 25"
proof -
  have "blockSize 25 = Some 2" by code_simp
  moreover have "block_of [25] = ''25''" by code_simp
  moreover have "Atoi ''25'' = 25" by code_simp
  ultimately show ?thesis by (simp add: letter_codes_def)
qed

text \<open>
  C10. For every \<open>n\<close> with \<open>blockSize n \<ge> 2\<close>, every exponent \<open>e \<ge> 1\<close> and every string \<open>msg\<close>,
  \<^verbatim>\<open>encodeMessage(n, e, msg)\<close> returns a string, and this string is the following one. Every
  rune of \<open>msg\<close> gives a code, its position in the alphabet for \<open>A..Z\<close> and \<open>-1\<close> for any other
  rune; the codes are cut into blocks of \<open>blockSize n / 2\<close> codes, the last one filled up with
  23; each block is written with two characters per code, read as a number, and raised to
  the power \<open>e\<close> by \<^verbatim>\<open>modpow\<close>, which returns; the results are printed with the width of \<open>n\<close>,
  each followed by a space. So a rune outside \<open>A..Z\<close> (codes 65 to 90) has index \<open>-1\<close> in the
  alphabet, contributes the characters \<open>-1\<close> to its block, and is encoded with no error.
\<close>

theorem encodeMessage_total_silent:
  "(blockSize n = Some k \<and> 2 \<le> k \<and> 1 \<le> e \<and> int64 e \<longrightarrow>
      (\<exists>vs. list_all2 (\<lambda>c v. modpow (Atoi (block_of c)) e n = Some (Inr v))
               (pchunks (k div 2) (rune_codes msg)) vs
         \<and> encodeMessage n e msg
             = Some (Inr (concat (map (\<lambda>v. Sprintf_0wd (countDigits n) v @ '' '') vs)))))
   \<and> letterDigits msg =
       map (\<lambda>c. if 65 \<le> c \<and> c \<le> 90 then Sprintf_0wd 2 (c - 65) else ''-1'') (runes msg)
   \<and> (c < 65 \<or> 90 < c \<longrightarrow> strings_Index alphabet (string_of_rune c) = - 1)"
proof (intro conjI impI)
  assume "blockSize n = Some k \<and> 2 \<le> k \<and> 1 \<le> e \<and> int64 e"
  then show "\<exists>vs. list_all2 (\<lambda>c v. modpow (Atoi (block_of c)) e n = Some (Inr v))
               (pchunks (k div 2) (rune_codes msg)) vs
         \<and> encodeMessage n e msg
             = Some (Inr (concat (map (\<lambda>v. Sprintf_0wd (countDigits n) v @ '' '') vs)))"
    by (intro encodeMessage_values [of n k]) (simp_all add: int64_def)
next
  show "letterDigits msg =
       map (\<lambda>c. if 65 \<le> c \<and> c \<le> 90 then Sprintf_0wd 2 (c - 65) else ''-1'') (runes msg)"
    by (rule letterDigits_eq)
next
  assume "c < 65 \<or> 90 < c"
  then show "strings_Index alphabet (string_of_rune c) = - 1" by (rule letter_index_absent)
qed

theorem encodeMessage_total_silent_witness:
  "blockSize 3233 = Some 4
     \<and> rune_codes ''HI!'' = [7, 8, - 1]
     \<and> map block_of (pchunks (4 div 2) (rune_codes ''HI!'')) = [''0708'', ''-123'']
     \<and> modpow 708 17 3233 = Some (Inr 191) \<and> modpow (- 123) 17 3233 = Some (Inr 2378)
     \<and> (\<exists>vs. list_all2 (\<lambda>c v. modpow (Atoi (block_of c)) 17 3233 = Some (Inr v))
               (pchunks (4 div 2) (rune_codes ''HI!'')) vs
         \<and> encodeMessage 3233 17 ''HI!''
             = Some (Inr (concat (map (\<lambda>v. Sprintf_0wd (countDigits 3233) v @ '' '') vs))))
     \<and> encodeMessage 3233 17 ''HI!'' = Some (Inr ''0191 2378 '')
     \<and> encodeMessage 3233 17 ''a?'' = Some (Inr ''0000 '')
     \<and> letterDigits ''a?'' = [''-1'', ''-1'']
     \<and> strings_Index alphabet (string_of_rune 63) = - 1"
proof -
  have r: "rune_codes ''HI!'' = [7, 8, - 1]" by code_simp
  have b: "map block_of (pchunks (4 div 2) (rune_codes ''HI!'')) = [''0708'', ''-123'']"
    by code_simp
  have m: "modpow 708 17 3233 = Some (Inr 191)" "modpow (- 123) 17 3233 = Some (Inr 2378)"
    by code_simp+
  have o: "encodeMessage 3233 17 ''HI!'' = Some (Inr ''0191 2378 '')"
    "encodeMessage 3233 17 ''a?'' = Some (Inr ''0000 '')"
    by code_simp+
  have d: "letterDigits ''a?'' = [''-1'', ''-1'']" by code_simp
  have t: "\<exists>vs. list_all2 (\<lambda>c v. modpow (Atoi (block_of c)) 17 3233 = Some (Inr v))
               (pchunks (4 div 2) (rune_codes ''HI!'')) vs
         \<and> encodeMessage 3233 17 ''HI!''
             = Some (Inr (concat (map (\<lambda>v. Sprintf_0wd (countDigits 3233) v @ '' '') vs)))"
    by (rule encodeMessage_total_silent [of 3233 4 17 "''HI!''", THEN conjunct1, THEN mp])
       (simp add: blockSize_3233 int64_def)
  have i: "strings_Index alphabet (string_of_rune 63) = - 1"
    by (rule encodeMessage_total_silent [of _ _ _ _ 63, THEN conjunct2, THEN conjunct2, THEN mp])
       simp
  show ?thesis using blockSize_3233 r b m o d t i by blast
qed

end
